theory Spec2Isabelle
  imports Main "HOL-Library.Sublist" "HOL-Library.Char_ord" "HOL-Library.List_Lexorder"
begin

section \<open>Python values and string operations\<close>

text \<open>
  Strings are lists of characters.  A character of this model is one of the code points
  0 to 255; on these code points the NFKC check that \<open>urllib.parse\<close> runs on a
  non-ASCII authority never raises, so it does not appear below.
\<close>

datatype error = ValueError | QueryReturnedBadRequestException | OtherException | OSError

datatype pyval = PNone | PStr string | PInt int

text \<open>\<open>s.rstrip(c)\<close> for a one-character argument: every trailing \<open>c\<close> goes.\<close>

definition rstrip :: "char \<Rightarrow> string \<Rightarrow> string" where
  "rstrip c s = rev (dropWhile (\<lambda>x. x = c) (rev s))"

text \<open>\<open>s.split(c)\<close> for a one-character separator: never an empty list.\<close>

fun split :: "char \<Rightarrow> string \<Rightarrow> string list" where
  "split c [] = [[]]"
| "split c (x # xs) =
     (if x = c then [] # split c xs
      else (case split c xs of [] \<Rightarrow> [[x]] | w # ws \<Rightarrow> (x # w) # ws))"

text \<open>\<open>p in s\<close> on strings: \<open>p\<close> occurs in \<open>s\<close> as a contiguous block.\<close>

definition str_in :: "string \<Rightarrow> string \<Rightarrow> bool" where
  "str_in p s = sublist p s"

section \<open>The standard library's \<open>urllib.parse.urlparse\<close>\<close>

text \<open>
  The scraper calls \<open>urlparse\<close> of the Python standard library.  The definitions below
  follow \<open>urllib/parse.py\<close> (Python 3.11) branch by branch.  The validation of a
  bracketed host (\<open>_check_bracketed_host\<close>, which asks the \<open>ipaddress\<close> module) is the
  parameter \<open>chk\<close>: \<open>chk h\<close> holds when the library accepts \<open>h\<close> between brackets.
\<close>

definition scheme_chars :: string where
  "scheme_chars = ''abcdefghijklmnopqrstuvwxyzABCDEFGHIJKLMNOPQRSTUVWXYZ0123456789+-.''"

definition ascii_letters :: string where
  "ascii_letters = ''abcdefghijklmnopqrstuvwxyzABCDEFGHIJKLMNOPQRSTUVWXYZ''"

definition uses_params :: "string list" where
  "uses_params = ['''', ''ftp'', ''hdl'', ''prospero'', ''http'', ''imap'', ''https'', ''shttp'',
     ''rtsp'', ''rtsps'', ''rtspu'', ''sip'', ''sips'', ''mms'', ''sftp'', ''tel'']"

text \<open>\<open>_WHATWG_C0_CONTROL_OR_SPACE\<close>: the code points 0 to 32.\<close>

definition c0_control_or_space :: "char \<Rightarrow> bool" where
  "c0_control_or_space c = ((of_char c :: nat) \<le> 32)"

text \<open>\<open>_UNSAFE_URL_BYTES_TO_REMOVE\<close>: tab, carriage return, line feed.\<close>

definition unsafe_url_byte :: "char \<Rightarrow> bool" where
  "unsafe_url_byte c = (c = CHR 0x09 \<or> c = CHR 0x0D \<or> c = CHR 0x0A)"

text \<open>\<open>str.lower\<close>, on the characters a scheme can have.\<close>

definition lower_char :: "char \<Rightarrow> char" where
  "lower_char c =
     (case map_of (zip ''ABCDEFGHIJKLMNOPQRSTUVWXYZ'' ''abcdefghijklmnopqrstuvwxyz'') c of
        None \<Rightarrow> c | Some l \<Rightarrow> l)"

definition lower :: "string \<Rightarrow> string" where
  "lower s = map lower_char s"

text \<open>\<open>_splitnetloc(url, 2)\<close>: the authority runs up to the first of \<open>/ ? #\<close>.\<close>

definition netloc_delim :: "char \<Rightarrow> bool" where
  "netloc_delim c = (c = CHR ''/'' \<or> c = CHR ''?'' \<or> c = CHR ''#'')"

definition splitnetloc :: "string \<Rightarrow> string \<times> string" where
  "splitnetloc url =
     (takeWhile (\<lambda>c. \<not> netloc_delim c) (drop 2 url),
      dropWhile (\<lambda>c. \<not> netloc_delim c) (drop 2 url))"

text \<open>\<open>netloc.partition('[')[2].partition(']')[0]\<close>\<close>

definition bracketed_host :: "string \<Rightarrow> string" where
  "bracketed_host netloc =
     takeWhile (\<lambda>c. c \<noteq> CHR '']'') (drop 1 (dropWhile (\<lambda>c. c \<noteq> CHR ''['') netloc))"

text \<open>\<open>url.split(c, 1)\<close> when \<open>c\<close> occurs in \<open>url\<close>; the pair unchanged otherwise.\<close>

definition split_once :: "char \<Rightarrow> string \<Rightarrow> string \<times> string" where
  "split_once c url =
     (if c \<in> set url
      then (takeWhile (\<lambda>x. x \<noteq> c) url, drop 1 (dropWhile (\<lambda>x. x \<noteq> c) url))
      else (url, []))"

text \<open>The first steps of \<open>urlsplit\<close>: leading control characters and spaces are
  stripped, then tabs and line breaks are removed everywhere.\<close>

definition strip_url :: "string \<Rightarrow> string" where
  "strip_url url = filter (\<lambda>c. \<not> unsafe_url_byte c) (dropWhile c0_control_or_space url)"

text \<open>The scheme test of \<open>urlsplit\<close>: a colon at a position \<open>i > 0\<close>, a letter first,
  and only scheme characters before the colon.\<close>

definition has_scheme :: "string \<Rightarrow> bool" where
  "has_scheme url =
     (CHR '':'' \<in> set url \<and>
      (case url of [] \<Rightarrow> False | c # _ \<Rightarrow> c \<noteq> CHR '':'' \<and> c \<in> set ascii_letters) \<and>
      list_all (\<lambda>c. c \<in> set scheme_chars) (takeWhile (\<lambda>c. c \<noteq> CHR '':'') url))"

text \<open>\<open>scheme, url = url[:i].lower(), url[i+1:]\<close> when the test succeeds; the scheme is
  empty and the URL unchanged otherwise.\<close>

definition scheme_of :: "string \<Rightarrow> string" where
  "scheme_of url = (if has_scheme url then lower (takeWhile (\<lambda>c. c \<noteq> CHR '':'') url) else [])"

definition after_scheme :: "string \<Rightarrow> string" where
  "after_scheme url = (if has_scheme url then drop 1 (dropWhile (\<lambda>c. c \<noteq> CHR '':'') url) else url)"

text \<open>The two checks on the brackets of the authority; \<open>Some e\<close> when \<open>e\<close> is raised.\<close>

definition check_netloc :: "(string \<Rightarrow> bool) \<Rightarrow> string \<Rightarrow> error option" where
  "check_netloc chk netloc =
     (if (CHR ''['' \<in> set netloc \<and> CHR '']'' \<notin> set netloc) \<or>
         (CHR '']'' \<in> set netloc \<and> CHR ''['' \<notin> set netloc)
      then Some ValueError
      else if CHR ''['' \<in> set netloc \<and> CHR '']'' \<in> set netloc \<and> \<not> chk (bracketed_host netloc)
      then Some ValueError
      else None)"

text \<open>The end of \<open>urlsplit\<close>: the fragment is split off at the first \<open>#\<close>, then the
  query at the first \<open>?\<close>.  The result is (scheme, netloc, path, query, fragment).\<close>

definition split_rest ::
  "string \<Rightarrow> string \<Rightarrow> string \<Rightarrow> string \<times> string \<times> string \<times> string \<times> string" where
  "split_rest sch nl url =
     (sch, nl, fst (split_once CHR ''?'' (fst (split_once CHR ''#'' url))),
      snd (split_once CHR ''?'' (fst (split_once CHR ''#'' url))),
      snd (split_once CHR ''#'' url))"

definition urlsplit ::
  "(string \<Rightarrow> bool) \<Rightarrow> string \<Rightarrow> error + (string \<times> string \<times> string \<times> string \<times> string)" where
  "urlsplit chk url0 =
     (if take 2 (after_scheme (strip_url url0)) = ''//''
      then (case check_netloc chk (fst (splitnetloc (after_scheme (strip_url url0)))) of
              Some e \<Rightarrow> Inl e
            | None \<Rightarrow>
                Inr (split_rest (scheme_of (strip_url url0))
                       (fst (splitnetloc (after_scheme (strip_url url0))))
                       (snd (splitnetloc (after_scheme (strip_url url0))))))
      else Inr (split_rest (scheme_of (strip_url url0)) [] (after_scheme (strip_url url0))))"

text \<open>\<open>_splitparams\<close>: the parameters start at the first \<open>;\<close> of the last path segment.\<close>

definition last_segment :: "string \<Rightarrow> string" where
  "last_segment url = rev (takeWhile (\<lambda>c. c \<noteq> CHR ''/'') (rev url))"

definition splitparams :: "string \<Rightarrow> string \<times> string" where
  "splitparams url =
     (if CHR ''/'' \<in> set url
      then (if CHR '';'' \<notin> set (last_segment url) then (url, [])
            else (take (length url - length (last_segment url)) url
                    @ takeWhile (\<lambda>c. c \<noteq> CHR '';'') (last_segment url),
                  drop 1 (dropWhile (\<lambda>c. c \<noteq> CHR '';'') (last_segment url))))
      else (takeWhile (\<lambda>c. c \<noteq> CHR '';'') url, drop 1 (dropWhile (\<lambda>c. c \<noteq> CHR '';'') url)))"

record ParseResult =
  scheme :: string
  netloc :: string
  path :: string
  params :: string
  query :: string
  fragment :: string

definition urlparse :: "(string \<Rightarrow> bool) \<Rightarrow> string \<Rightarrow> error + ParseResult" where
  "urlparse chk url =
     (case urlsplit chk url of
        Inl e \<Rightarrow> Inl e
      | Inr (sch, nl, u, q, f) \<Rightarrow>
          (if sch \<in> set uses_params \<and> CHR '';'' \<in> set u
           then Inr \<lparr>scheme = sch, netloc = nl, path = fst (splitparams u),
                     params = snd (splitparams u), query = q, fragment = f\<rparr>
           else Inr \<lparr>scheme = sch, netloc = nl, path = u, params = [], query = q, fragment = f\<rparr>))"

section \<open>\<open>scraper.py\<close>: discovery of profile links\<close>

text \<open>A search hit is a dictionary of strings; only \<open>get\<close> is used on it.\<close>

type_synonym hit = "string \<rightharpoonup> string"

text \<open>\<open>r.get("href") or r.get("url") or ""\<close>: a missing or empty value is falsy.\<close>

definition hit_url :: "hit \<Rightarrow> string" where
  "hit_url r =
     (case r ''href'' of
        Some h \<Rightarrow> (if h \<noteq> [] then h
                   else (case r ''url'' of Some u \<Rightarrow> u | None \<Rightarrow> []))
      | None \<Rightarrow> (case r ''url'' of Some u \<Rightarrow> u | None \<Rightarrow> []))"

text \<open>The cleaned form of one hit:
  \<open>f"{parsed.scheme}://{parsed.netloc}{parsed.path}".rstrip("/")\<close>.\<close>

definition cleaned :: "(string \<Rightarrow> bool) \<Rightarrow> string \<Rightarrow> error + string" where
  "cleaned chk url =
     (case urlparse chk url of
        Inl e \<Rightarrow> Inl e
      | Inr parsed \<Rightarrow> Inr (rstrip CHR ''/'' (scheme parsed @ ''://'' @ netloc parsed @ path parsed)))"

text \<open>The first loop of \<open>search_social_links\<close>: hits that contain the platform are
  parsed and cleaned; an exception of \<open>urlparse\<close> leaves the loop and the function.\<close>

fun collect_urls :: "(string \<Rightarrow> bool) \<Rightarrow> string \<Rightarrow> hit list \<Rightarrow> string list \<Rightarrow> error + string list" where
  "collect_urls chk platform [] urls = Inr urls"
| "collect_urls chk platform (r # results) urls =
     (if str_in platform (hit_url r)
      then (case cleaned chk (hit_url r) of
              Inl e \<Rightarrow> Inl e
            | Inr c \<Rightarrow> collect_urls chk platform results (urls @ [c]))
      else collect_urls chk platform results urls)"

text \<open>The second loop: \<open>seen\<close> is the set, \<open>unique_urls\<close> the list that is returned.\<close>

fun unique_loop :: "string list \<Rightarrow> string set \<Rightarrow> string list \<Rightarrow> string list" where
  "unique_loop [] seen unique_urls = unique_urls"
| "unique_loop (u # urls) seen unique_urls =
     (if u \<notin> seen then unique_loop urls (insert u seen) (unique_urls @ [u])
      else unique_loop urls seen unique_urls)"

text \<open>\<open>f"{business_name} {platform.split('.')[0]} {platform}"\<close>\<close>

definition search_query :: "string \<Rightarrow> string \<Rightarrow> string" where
  "search_query business_name platform =
     business_name @ '' '' @
     (case split CHR ''.'' platform of [] \<Rightarrow> [] | label # _ \<Rightarrow> label) @ '' '' @ platform"

text \<open>
  The search provider is the parameter \<open>ddgs\<close>: for a query and a result cap it raises,
  returns \<open>None\<close> or returns a list of hits.  \<open>or []\<close> turns \<open>None\<close> into the empty list.
\<close>

type_synonym provider = "string \<Rightarrow> int \<Rightarrow> error + hit list option"

definition search_social_links ::
  "(string \<Rightarrow> bool) \<Rightarrow> provider \<Rightarrow> string \<Rightarrow> string \<Rightarrow> int \<Rightarrow> error + string list" where
  "search_social_links chk ddgs business_name platform max_results =
     (case ddgs (search_query business_name platform) max_results of
        Inl e \<Rightarrow> Inl e
      | Inr res \<Rightarrow>
          (case collect_urls chk platform (case res of None \<Rightarrow> [] | Some rs \<Rightarrow> rs) [] of
             Inl e \<Rightarrow> Inl e
           | Inr urls \<Rightarrow> Inr (unique_loop urls {} [])))"

text \<open>\<open>ensure_username_from_url\<close>: the first non-empty part of the path.\<close>

definition ensure_username_from_url :: "(string \<Rightarrow> bool) \<Rightarrow> string \<Rightarrow> error + string" where
  "ensure_username_from_url chk url =
     (case urlparse chk url of
        Inl e \<Rightarrow> Inl e
      | Inr parsed \<Rightarrow>
          (case filter (\<lambda>p. p \<noteq> []) (split CHR ''/'' (path parsed)) of
             [] \<Rightarrow> Inr []
           | p # _ \<Rightarrow> Inr p))"

section \<open>\<open>scraper.py\<close>: extraction\<close>

text \<open>A profile record is a dictionary; its items are kept in insertion order.\<close>

type_synonym row = "(string \<times> pyval) list"

text \<open>Truthiness of a value, as \<open>or\<close> and \<open>if\<close> test it.\<close>

fun truthy :: "pyval \<Rightarrow> bool" where
  "truthy PNone = False"
| "truthy (PStr s) = (s \<noteq> [])"
| "truthy (PInt n) = (n \<noteq> 0)"

text \<open>The attributes that \<open>extract_instagram_data\<close> reads from an
  \<open>instaloader.Profile\<close>.\<close>

record ig_profile =
  ig_username :: string
  ig_full_name :: string
  ig_followers :: int
  ig_followees :: int
  ig_mediacount :: int
  ig_biography :: pyval
  ig_external_url :: pyval

text \<open>
  The two back ends are parameters: \<open>Profile.from_username\<close> of instaloader returns a
  profile or raises, \<open>get_profile\<close> of facebook-scraper returns a dictionary or raises.
\<close>

type_synonym ig_api = "string \<Rightarrow> error + ig_profile"
type_synonym fb_api = "string \<Rightarrow> string option \<Rightarrow> error + (string \<rightharpoonup> pyval)"

definition py_or :: "pyval \<Rightarrow> pyval \<Rightarrow> pyval" where
  "py_or a b = (if truthy a then a else b)"

definition extract_instagram_data :: "ig_api \<Rightarrow> string \<Rightarrow> error + row" where
  "extract_instagram_data from_username username =
     (case from_username username of
        Inl e \<Rightarrow> Inl e
      | Inr profile \<Rightarrow> Inr
          [(''platform'', PStr ''instagram''),
           (''username'', PStr (ig_username profile)),
           (''full_name'', PStr (ig_full_name profile)),
           (''followers'', PInt (ig_followers profile)),
           (''following'', PInt (ig_followees profile)),
           (''posts'', PInt (ig_mediacount profile)),
           (''url'', PStr (''https://www.instagram.com/'' @ ig_username profile @ ''/'')),
           (''bio'', py_or (ig_biography profile) (PStr [])),
           (''external_url'', py_or (ig_external_url profile) (PStr []))])"

text \<open>\<open>d.get(k, default)\<close> on a dictionary given as a map.\<close>

definition dict_get :: "(string \<rightharpoonup> pyval) \<Rightarrow> string \<Rightarrow> pyval \<Rightarrow> pyval" where
  "dict_get d k dflt = (case d k of None \<Rightarrow> dflt | Some v \<Rightarrow> v)"

definition extract_facebook_data :: "fb_api \<Rightarrow> string \<Rightarrow> string option \<Rightarrow> error + row" where
  "extract_facebook_data get_profile username cookies =
     (case get_profile username cookies of
        Inl e \<Rightarrow> Inl e
      | Inr profile \<Rightarrow> Inr
          [(''platform'', PStr ''facebook''),
           (''username'', py_or (dict_get profile ''username'' PNone) (PStr username)),
           (''full_name'', dict_get profile ''name'' (PStr [])),
           (''followers'', dict_get profile ''followers'' PNone),
           (''category'', dict_get profile ''category'' (PStr [])),
           (''url'', py_or (dict_get profile ''link'' PNone)
                           (PStr (''https://www.facebook.com/'' @ username))),
           (''about'', dict_get profile ''about'' (PStr [])),
           (''website'', dict_get profile ''website'' (PStr [])),
           (''email'', dict_get profile ''email'' (PStr [])),
           (''phone'', dict_get profile ''phone'' (PStr [])),
           (''city'', dict_get profile ''city'' (PStr []))])"

section \<open>\<open>scraper.py\<close>: export\<close>

text \<open>
  What a run does to the outside is kept in a \<open>world\<close>: the lines it prints, the
  extractor calls and the sleeps, in order, and the files it writes.  A written file is
  the header and the rows handed to the \<open>csv\<close> writer.
\<close>

datatype event =
    UsingProxy "string \<times> string"
  | LoggedIn
  | LoginFailed
  | Searching string
  | Discovering string string
  | Called string
  | RateLimitNotice
  | Sleep nat
  | Failed string
  | NoData
  | Saved nat string

record table =
  header :: "string list"
  body :: "pyval list list"

record world =
  events :: "event list"
  files :: "string \<rightharpoonup> table"
  writable :: "string \<Rightarrow> bool"

definition emit :: "event list \<Rightarrow> world \<Rightarrow> world" where
  "emit es w = w\<lparr>events := events w @ es\<rparr>"

text \<open>\<open>sorted({k for row in rows for k in row.keys()})\<close>\<close>

definition fieldnames_of :: "row list \<Rightarrow> string list" where
  "fieldnames_of rs = sort (remdups (concat (map (map fst) rs)))"

text \<open>\<open>DictWriter._dict_to_list\<close>: a key outside the field names raises, a missing field
  is written as the empty string.\<close>

definition dict_to_list :: "string list \<Rightarrow> row \<Rightarrow> error + pyval list" where
  "dict_to_list fieldnames r =
     (if list_ex (\<lambda>k. k \<notin> set fieldnames) (map fst r) then Inl ValueError
      else Inr (map (\<lambda>key. case map_of r key of None \<Rightarrow> PStr [] | Some v \<Rightarrow> v) fieldnames))"

fun write_rows :: "string list \<Rightarrow> row list \<Rightarrow> pyval list list \<Rightarrow> error + pyval list list" where
  "write_rows fieldnames [] written = Inr written"
| "write_rows fieldnames (r # rs) written =
     (case dict_to_list fieldnames r of
        Inl e \<Rightarrow> Inl e
      | Inr line \<Rightarrow> write_rows fieldnames rs (written @ [line]))"

definition save_to_csv :: "row list \<Rightarrow> string \<Rightarrow> world \<Rightarrow> error + world" where
  "save_to_csv rs output w =
     (if rs = [] then Inr (emit [NoData] w)
      else if \<not> writable w output then Inl OSError
      else (case write_rows (fieldnames_of rs) rs [] of
              Inl e \<Rightarrow> Inl e
            | Inr lines \<Rightarrow>
                Inr (emit [Saved (length rs) output]
                      (w\<lparr>files := (files w)(output \<mapsto> \<lparr>header = fieldnames_of rs, body = lines\<rparr>)\<rparr>))))"

section \<open>\<open>scraper.py\<close>: the business-name run\<close>

text \<open>
  The extractor answers are indexed by the position of the URL in the list that is being
  processed: \<open>ig i\<close> is what instaloader does at the call made for the \<open>i\<close>-th URL,
  \<open>fb i\<close> what facebook-scraper does there.  Every extractor call is recorded as an
  event \<open>Called username\<close>.
\<close>

text \<open>The body of the loop over \<open>urls\<close> in \<open>main\<close>.  \<open>ensure_username_from_url\<close> is
  called outside the \<open>try\<close>: its exception leaves the run.\<close>

definition main_step ::
  "(string \<Rightarrow> bool) \<Rightarrow> string \<Rightarrow> ig_api \<Rightarrow> fb_api \<Rightarrow> string option \<Rightarrow> string
     \<Rightarrow> row list \<times> world \<Rightarrow> error + row list \<times> world" where
  "main_step chk platform from_username get_profile fb_cookies url st =
     (case ensure_username_from_url chk url of
        Inl e \<Rightarrow> Inl e
      | Inr username \<Rightarrow>
          (if username = [] then Inr st
           else (case (if platform = ''instagram.com''
                       then extract_instagram_data from_username username
                       else extract_facebook_data get_profile username fb_cookies) of
                   Inr data \<Rightarrow> Inr (fst st @ [data], emit [Called username] (snd st))
                 | Inl e \<Rightarrow> Inr (fst st, emit [Called username, Failed url] (snd st)))))"

fun main_urls ::
  "(string \<Rightarrow> bool) \<Rightarrow> string \<Rightarrow> (nat \<Rightarrow> ig_api) \<Rightarrow> (nat \<Rightarrow> fb_api) \<Rightarrow> string option
     \<Rightarrow> string list \<Rightarrow> nat \<Rightarrow> row list \<times> world \<Rightarrow> error + row list \<times> world" where
  "main_urls chk platform ig fb fb_cookies [] i st = Inr st"
| "main_urls chk platform ig fb fb_cookies (url # urls) i st =
     (case main_step chk platform (ig i) (fb i) fb_cookies url st of
        Inl e \<Rightarrow> Inl e
      | Inr st' \<Rightarrow> main_urls chk platform ig fb fb_cookies urls (Suc i) st')"

text \<open>The loop over the two platforms, for one business.\<close>

fun main_platforms ::
  "(string \<Rightarrow> bool) \<Rightarrow> provider \<Rightarrow> (nat \<Rightarrow> ig_api) \<Rightarrow> (nat \<Rightarrow> fb_api) \<Rightarrow> string option
     \<Rightarrow> int \<Rightarrow> string \<Rightarrow> string list \<Rightarrow> row list \<times> world \<Rightarrow> error + row list \<times> world" where
  "main_platforms chk ddgs ig fb fb_cookies max_results biz [] st = Inr st"
| "main_platforms chk ddgs ig fb fb_cookies max_results biz (platform # platforms) st =
     (case search_social_links chk ddgs biz platform max_results of
        Inl e \<Rightarrow> Inl e
      | Inr urls \<Rightarrow>
          (case main_urls chk platform ig fb fb_cookies urls 0 st of
             Inl e \<Rightarrow> Inl e
           | Inr st' \<Rightarrow> main_platforms chk ddgs ig fb fb_cookies max_results biz platforms st'))"

text \<open>The loop over the businesses; \<open>b\<close> counts them, and the extractor answers of
  business \<open>b\<close> are \<open>ig b\<close> and \<open>fb b\<close>.\<close>

fun main_businesses ::
  "(string \<Rightarrow> bool) \<Rightarrow> provider \<Rightarrow> (nat \<Rightarrow> nat \<Rightarrow> ig_api) \<Rightarrow> (nat \<Rightarrow> nat \<Rightarrow> fb_api)
     \<Rightarrow> string option \<Rightarrow> int \<Rightarrow> string list \<Rightarrow> nat \<Rightarrow> row list \<times> world
     \<Rightarrow> error + row list \<times> world" where
  "main_businesses chk ddgs ig fb fb_cookies max_results [] b st = Inr st"
| "main_businesses chk ddgs ig fb fb_cookies max_results (biz # businesses) b st =
     (case main_platforms chk ddgs (ig b) (fb b) fb_cookies max_results biz
             [''instagram.com'', ''facebook.com''] (fst st, emit [Searching biz] (snd st)) of
        Inl e \<Rightarrow> Inl e
      | Inr st' \<Rightarrow> main_businesses chk ddgs ig fb fb_cookies max_results businesses (Suc b) st')"

text \<open>\<open>if user and password: try: loader.login(...) except Exception: ...\<close>; the login
  itself is the parameter \<open>login\<close>, \<open>None\<close> when it succeeds.\<close>

definition try_login ::
  "(string \<Rightarrow> string \<Rightarrow> error option) \<Rightarrow> string option \<Rightarrow> string option \<Rightarrow> world \<Rightarrow> world" where
  "try_login login ig_user ig_pass w =
     (case (ig_user, ig_pass) of
        (Some u, Some p) \<Rightarrow>
          (if u \<noteq> [] \<and> p \<noteq> []
           then (case login u p of None \<Rightarrow> emit [LoggedIn] w | Some e \<Rightarrow> emit [LoginFailed] w)
           else w)
      | _ \<Rightarrow> w)"

text \<open>\<open>main\<close>, with the parsed command-line arguments as its arguments.\<close>

definition main ::
  "(string \<Rightarrow> bool) \<Rightarrow> provider \<Rightarrow> (string \<Rightarrow> string \<Rightarrow> error option)
     \<Rightarrow> (nat \<Rightarrow> nat \<Rightarrow> ig_api) \<Rightarrow> (nat \<Rightarrow> nat \<Rightarrow> fb_api)
     \<Rightarrow> string list \<Rightarrow> string \<Rightarrow> string option \<Rightarrow> string option \<Rightarrow> string option \<Rightarrow> int
     \<Rightarrow> world \<Rightarrow> error + world" where
  "main chk ddgs login ig fb businesses output fb_cookies ig_user ig_pass max_results w =
     (case main_businesses chk ddgs ig fb fb_cookies max_results businesses 0
             ([], try_login login ig_user ig_pass w) of
        Inl e \<Rightarrow> Inl e
      | Inr (all_rows, w') \<Rightarrow> save_to_csv all_rows output w')"

section \<open>\<open>city_scraper.py\<close>\<close>

definition proxy_links :: "(string \<times> string) list" where
  "proxy_links =
     [(''http://156.228.83.153:3129'', ''http://156.228.83.153:3129''),
      (''http://154.213.204.172:3129'', ''http://154.213.204.172:3129''),
      (''http://156.248.81.26:3129'', ''http://156.248.81.26:3129''),
      (''http://156.228.106.27:3129'', ''http://156.228.106.27:3129''),
      (''http://156.248.84.6:3129'', ''http://156.248.84.6:3129''),
      (''http://156.253.164.134:3129'', ''http://156.253.164.134:3129''),
      (''http://156.228.77.32:3129'', ''http://156.228.77.32:3129''),
      (''http://156.228.176.92:3129'', ''http://156.228.176.92:3129''),
      (''http://156.228.114.12:3129'', ''http://156.228.114.12:3129''),
      (''http://156.248.83.163:3129'', ''http://156.248.83.163:3129'')]"

definition DEFAULT_KEYWORDS :: "string list" where
  "DEFAULT_KEYWORDS =
     [''restaurant'', ''bar'', ''cafe'', ''pub'', ''bistro'', ''grill'', ''steakhouse'',
      ''brewery'', ''hotel'']"

text \<open>The first loop of \<open>discover_profiles\<close>: one search per keyword, the results
  appended to \<open>discovered\<close>.\<close>

fun discover_loop ::
  "(string \<Rightarrow> bool) \<Rightarrow> provider \<Rightarrow> string \<Rightarrow> string \<Rightarrow> int \<Rightarrow> string list \<Rightarrow> string list
     \<Rightarrow> error + string list" where
  "discover_loop chk ddgs city platform max_per_keyword [] discovered = Inr discovered"
| "discover_loop chk ddgs city platform max_per_keyword (kw # keywords) discovered =
     (case search_social_links chk ddgs (kw @ '' '' @ city) platform max_per_keyword of
        Inl e \<Rightarrow> Inl e
      | Inr urls \<Rightarrow>
          discover_loop chk ddgs city platform max_per_keyword keywords (discovered @ urls))"

definition discover_profiles ::
  "(string \<Rightarrow> bool) \<Rightarrow> provider \<Rightarrow> string \<Rightarrow> string list \<Rightarrow> string \<Rightarrow> int \<Rightarrow> error + string list" where
  "discover_profiles chk ddgs city keywords platform max_per_keyword =
     (case discover_loop chk ddgs city platform max_per_keyword keywords [] of
        Inl e \<Rightarrow> Inl e
      | Inr discovered \<Rightarrow> Inr (unique_loop discovered {} []))"

text \<open>The body of the loop over \<open>urls\<close> in \<open>scrape_city\<close>.  Instagram has its own
  handler for the bad-request exception: a notice and \<open>time.sleep(300)\<close>.  A record is
  appended only \<open>if data\<close>, that is when the dictionary is not empty.\<close>

definition city_step ::
  "(string \<Rightarrow> bool) \<Rightarrow> string \<Rightarrow> ig_api \<Rightarrow> fb_api \<Rightarrow> string option \<Rightarrow> string
     \<Rightarrow> row list \<times> world \<Rightarrow> error + row list \<times> world" where
  "city_step chk platform from_username get_profile fb_cookies url st =
     (case ensure_username_from_url chk url of
        Inl e \<Rightarrow> Inl e
      | Inr username \<Rightarrow>
          (if username = [] then Inr st
           else if platform = ''instagram.com''
           then (case extract_instagram_data from_username username of
                   Inr data \<Rightarrow>
                     Inr (if data \<noteq> [] then fst st @ [data] else fst st,
                          emit [Called username] (snd st))
                 | Inl QueryReturnedBadRequestException \<Rightarrow>
                     Inr (fst st, emit [Called username, RateLimitNotice, Sleep 300] (snd st))
                 | Inl e \<Rightarrow> Inr (fst st, emit [Called username, Failed url] (snd st)))
           else (case extract_facebook_data get_profile username fb_cookies of
                   Inr data \<Rightarrow>
                     Inr (if data \<noteq> [] then fst st @ [data] else fst st,
                          emit [Called username] (snd st))
                 | Inl e \<Rightarrow> Inr (fst st, emit [Called username, Failed url] (snd st)))))"

fun city_urls ::
  "(string \<Rightarrow> bool) \<Rightarrow> string \<Rightarrow> (nat \<Rightarrow> ig_api) \<Rightarrow> (nat \<Rightarrow> fb_api) \<Rightarrow> string option
     \<Rightarrow> string list \<Rightarrow> nat \<Rightarrow> row list \<times> world \<Rightarrow> error + row list \<times> world" where
  "city_urls chk platform ig fb fb_cookies [] i st = Inr st"
| "city_urls chk platform ig fb fb_cookies (url # urls) i st =
     (case city_step chk platform (ig i) (fb i) fb_cookies url st of
        Inl e \<Rightarrow> Inl e
      | Inr st' \<Rightarrow> city_urls chk platform ig fb fb_cookies urls (Suc i) st')"

fun city_platforms ::
  "(string \<Rightarrow> bool) \<Rightarrow> provider \<Rightarrow> (nat \<Rightarrow> ig_api) \<Rightarrow> (nat \<Rightarrow> fb_api) \<Rightarrow> string option
     \<Rightarrow> string \<Rightarrow> string list \<Rightarrow> int \<Rightarrow> string list \<Rightarrow> row list \<times> world
     \<Rightarrow> error + row list \<times> world" where
  "city_platforms chk ddgs ig fb fb_cookies city keywords max_per_keyword [] st = Inr st"
| "city_platforms chk ddgs ig fb fb_cookies city keywords max_per_keyword (platform # platforms) st =
     (case discover_profiles chk ddgs city keywords platform max_per_keyword of
        Inl e \<Rightarrow> Inl e
      | Inr urls \<Rightarrow>
          (case city_urls chk platform ig fb fb_cookies urls 0
                  (fst st, emit [Discovering platform city] (snd st)) of
             Inl e \<Rightarrow> Inl e
           | Inr st' \<Rightarrow>
               city_platforms chk ddgs ig fb fb_cookies city keywords max_per_keyword platforms st'))"

text \<open>\<open>scrape_city\<close>; \<open>choice\<close> is the index that \<open>random.choice\<close> draws.\<close>

definition scrape_city ::
  "(string \<Rightarrow> bool) \<Rightarrow> provider \<Rightarrow> (string \<Rightarrow> string \<Rightarrow> error option) \<Rightarrow> nat
     \<Rightarrow> (nat \<Rightarrow> ig_api) \<Rightarrow> (nat \<Rightarrow> fb_api)
     \<Rightarrow> string \<Rightarrow> string list \<Rightarrow> string option \<Rightarrow> string option \<Rightarrow> string option \<Rightarrow> int \<Rightarrow> string
     \<Rightarrow> world \<Rightarrow> error + world" where
  "scrape_city chk ddgs login choice ig fb city keywords fb_cookies ig_user ig_pass
       max_per_keyword output w =
     (case city_platforms chk ddgs ig fb fb_cookies city keywords max_per_keyword
             [''instagram.com'', ''facebook.com'']
             ([], try_login login ig_user ig_pass
                    (emit [UsingProxy (proxy_links ! (choice mod length proxy_links))] w)) of
        Inl e \<Rightarrow> Inl e
      | Inr (rows, w') \<Rightarrow> save_to_csv rows output w')"

section \<open>Sample inputs\<close>

text \<open>A search provider with two answers, used to run the functions on concrete data.\<close>

definition demo_search :: provider where
  "demo_search q n =
     (if q = ''bar Chicago instagram instagram.com''
      then Inr (Some [[''href'' \<mapsto> ''https://instagram.com/a/''],
                      [''href'' \<mapsto> ''https://instagram.com/b?x=1'']])
      else if q = ''cafe Chicago instagram instagram.com''
      then Inr (Some [[''url'' \<mapsto> ''https://instagram.com/b''],
                      [''href'' \<mapsto> ''https://instagram.com/c''],
                      [''href'' \<mapsto> ''https://instagram.com/a'']])
      else Inr None)"

text \<open>Four hits: the second does not mention the platform, the third mentions it in
  its query string only.\<close>

definition demo_hits :: "hit list" where
  "demo_hits =
     [[''href'' \<mapsto> ''https://www.instagram.com/joe/?hl=en''],
      [''href'' \<mapsto> ''https://example.com/joe''],
      [''url'' \<mapsto> ''https://example.com/share?u=instagram.com''],
      [''href'' \<mapsto> '''', ''url'' \<mapsto> ''https://www.instagram.com/joe'']]"

text \<open>Extractor answers and a world to start from.  \<open>any_host\<close> accepts every
  bracketed host.\<close>

definition any_host :: "string \<Rightarrow> bool" where
  "any_host h = True"

definition empty_world :: world where
  "empty_world = \<lparr>events = [], files = Map.empty, writable = (\<lambda>p. True)\<rparr>"

definition demo_profile :: "string \<Rightarrow> ig_profile" where
  "demo_profile u =
     \<lparr>ig_username = u, ig_full_name = u, ig_followers = 10, ig_followees = 20,
      ig_mediacount = 3, ig_biography = PNone, ig_external_url = PStr ''https://example.com''\<rparr>"

text \<open>Instaloader answers the call for the URL at position 1 with the bad-request
  exception, respectively with another exception, and every other call with a profile.\<close>

definition rate_limited_at_1 :: "nat \<Rightarrow> ig_api" where
  "rate_limited_at_1 i u =
     (if i = 1 then Inl QueryReturnedBadRequestException else Inr (demo_profile u))"

definition failing_at_1 :: "nat \<Rightarrow> ig_api" where
  "failing_at_1 i u = (if i = 1 then Inl OtherException else Inr (demo_profile u))"

text \<open>Instaloader fails at the first two calls, at the second with the bad-request
  exception.\<close>

definition two_failures :: "nat \<Rightarrow> ig_api" where
  "two_failures i u =
     (if i = 0 then Inl OtherException
      else if i = 1 then Inl QueryReturnedBadRequestException
      else Inr (demo_profile u))"

definition no_facebook :: "nat \<Rightarrow> fb_api" where
  "no_facebook i u c = Inl OtherException"

definition demo_urls :: "string list" where
  "demo_urls = [''https://www.instagram.com/joe'', ''https://www.instagram.com/ann'',
                ''https://www.instagram.com/bob'']"

text \<open>What a loop leaves behind: the records and the events.\<close>

definition outcome :: "error + row list \<times> world \<Rightarrow> error + row list \<times> event list" where
  "outcome res = (case res of Inl e \<Rightarrow> Inl e | Inr (rows, w) \<Rightarrow> Inr (rows, events w))"

definition demo_row :: "string \<Rightarrow> row" where
  "demo_row u =
     [(''platform'', PStr ''instagram''), (''username'', PStr u), (''full_name'', PStr u),
      (''followers'', PInt 10), (''following'', PInt 20), (''posts'', PInt 3),
      (''url'', PStr (''https://www.instagram.com/'' @ u @ ''/'')), (''bio'', PStr []),
      (''external_url'', PStr ''https://example.com'')]"

definition demo_names :: "string list" where
  "demo_names = [''joe'', ''ann'', ''bob'']"

section \<open>Auxiliary definitions\<close>

text \<open>The path that \<open>urlparse\<close> returns for the part \<open>w\<close> of the URL that follows the
  scheme and the authority: fragment and query are cut off, then the parameters when the
  scheme has them.\<close>

definition path_of :: "string \<Rightarrow> string \<Rightarrow> string" where
  "path_of sch w =
     (if sch \<in> set uses_params \<and> CHR '';'' \<in> set (fst (split_once CHR ''?'' (fst (split_once CHR ''#'' w))))
      then fst (splitparams (fst (split_once CHR ''?'' (fst (split_once CHR ''#'' w)))))
      else fst (split_once CHR ''?'' (fst (split_once CHR ''#'' w))))"

text \<open>Two more providers: one returns the four hits above, the other one hit whose last
  path segment has parameters.\<close>

definition four_hits_search :: provider where
  "four_hits_search q n = Inr (Some demo_hits)"

definition params_hit_search :: provider where
  "params_hit_search q n = Inr (Some [[''href'' \<mapsto> ''https://www.instagram.com/joe;x/'']])"

section \<open>Properties of the export\<close>

lemma files_emit [simp]: "files (emit es w) = files w"
  by (simp add: emit_def)

lemma writable_emit [simp]: "writable (emit es w) = writable w"
  by (simp add: emit_def)

lemma events_emit [simp]: "events (emit es w) = events w @ es"
  by (simp add: emit_def)

lemma files_try_login [simp]: "files (try_login login u p w) = files w"
  by (simp add: try_login_def split: option.splits)

lemma main_businesses_no_urls:
  assumes "\<forall>biz\<in>set bs. search_social_links chk ddgs biz ''instagram.com'' m = Inr []
                        \<and> search_social_links chk ddgs biz ''facebook.com'' m = Inr []"
  shows "\<exists>w'. main_businesses chk ddgs ig fb ck m bs b (rs, w) = Inr (rs, w') \<and> files w' = files w"
  using assms
proof (induction bs arbitrary: b w)
  case Nil
  then show ?case by simp
next
  case (Cons biz bs)
  from Cons.prems
  have "\<exists>w'. main_businesses chk ddgs ig fb ck m bs (Suc b) (rs, emit [Searching biz] w)
           = Inr (rs, w') \<and> files w' = files (emit [Searching biz] w)"
    by (intro Cons.IH) simp
  with Cons.prems show ?case by simp
qed

text \<open>
  C9.  With no record, \<open>save_to_csv\<close> writes nothing: it prints its notice and returns.
  Hence a city run whose discovery is empty for both platforms, and a business-name run
  whose searches are all empty, end without an exception, leave every file as it was, and
  their last line is that notice.
\<close>

theorem empty_run_writes_nothing:
  "save_to_csv [] out w = Inr (emit [NoData] w) \<and> files (emit [NoData] w) = files w \<and>
   (discover_profiles chk ddgs city keywords ''instagram.com'' m = Inr [] \<and>
    discover_profiles chk ddgs city keywords ''facebook.com'' m = Inr []
    \<longrightarrow> (\<exists>w'. scrape_city chk ddgs login choice ig fb city keywords ck iu ip m out w = Inr w'
              \<and> files w' = files w \<and> last (events w') = NoData)) \<and>
   ((\<forall>biz\<in>set bs. search_social_links chk ddgs biz ''instagram.com'' n = Inr []
                 \<and> search_social_links chk ddgs biz ''facebook.com'' n = Inr [])
    \<longrightarrow> (\<exists>w'. main chk ddgs login igs fbs bs out ck iu ip n w = Inr w'
              \<and> files w' = files w \<and> last (events w') = NoData))"
proof (intro conjI impI)
  show "save_to_csv [] out w = Inr (emit [NoData] w)"
    by (simp add: save_to_csv_def)
  show "files (emit [NoData] w) = files w" by simp
next
  assume "discover_profiles chk ddgs city keywords ''instagram.com'' m = Inr [] \<and>
    discover_profiles chk ddgs city keywords ''facebook.com'' m = Inr []"
  then show "\<exists>w'. scrape_city chk ddgs login choice ig fb city keywords ck iu ip m out w = Inr w'
              \<and> files w' = files w \<and> last (events w') = NoData"
    by (simp add: scrape_city_def save_to_csv_def)
next
  assume a: "\<forall>biz\<in>set bs. search_social_links chk ddgs biz ''instagram.com'' n = Inr []
                 \<and> search_social_links chk ddgs biz ''facebook.com'' n = Inr []"
  obtain w1 where w1: "main_businesses chk ddgs igs fbs ck n bs 0 ([], try_login login iu ip w) = Inr ([], w1)"
     "files w1 = files (try_login login iu ip w)"
    using main_businesses_no_urls [OF a] by blast
  show "\<exists>w'. main chk ddgs login igs fbs bs out ck iu ip n w = Inr w'
              \<and> files w' = files w \<and> last (events w') = NoData"
    using w1 by (simp add: main_def save_to_csv_def)
qed

theorem empty_run_writes_nothing_witness:
  "(\<exists>w'. scrape_city (\<lambda>h. True) (\<lambda>q n. Inr None) (\<lambda>u p. None) 0 (\<lambda>i u. Inl OtherException)
            (\<lambda>i u c. Inl OtherException) ''Chicago'' [''bar'', ''cafe''] None None None 10 ''out.csv''
            \<lparr>events = [], files = Map.empty, writable = (\<lambda>p. True)\<rparr> = Inr w'
         \<and> files w' = Map.empty \<and> last (events w') = NoData) \<and>
   (\<exists>w'. main (\<lambda>h. True) (\<lambda>q n. Inr None) (\<lambda>u p. None) (\<lambda>b i u. Inl OtherException)
            (\<lambda>b i u c. Inl OtherException) [''Joe Pizza''] ''out.csv'' None None None 10
            \<lparr>events = [], files = Map.empty, writable = (\<lambda>p. True)\<rparr> = Inr w'
         \<and> files w' = Map.empty \<and> last (events w') = NoData)"
  using empty_run_writes_nothing [of "''out.csv''" "\<lparr>events = [], files = Map.empty, writable = (\<lambda>p. True)\<rparr>"
     "\<lambda>h. True" "\<lambda>q n. Inr None" "''Chicago''" "[''bar'', ''cafe'']" 10 "\<lambda>u p. None" 0
     "\<lambda>i u. Inl OtherException" "\<lambda>i u c. Inl OtherException" None None None "[''Joe Pizza'']" 10
     "\<lambda>b i u. Inl OtherException" "\<lambda>b i u c. Inl OtherException"]
  by (simp add: discover_profiles_def search_social_links_def)

lemma write_rows_all:
  assumes "\<forall>r\<in>set rs. fst ` set r \<subseteq> set fn"
  shows "write_rows fn rs acc =
           Inr (acc @ map (\<lambda>r. map (\<lambda>k. case map_of r k of None \<Rightarrow> PStr [] | Some v \<Rightarrow> v) fn) rs)"
  using assms
proof (induction rs arbitrary: acc)
  case Nil
  then show ?case by simp
next
  case (Cons r rs)
  from Cons.prems have "\<not> list_ex (\<lambda>k. k \<notin> set fn) (map fst r)"
    by (auto simp: list_ex_iff)
  then have "dict_to_list fn r = Inr (map (\<lambda>k. case map_of r k of None \<Rightarrow> PStr [] | Some v \<Rightarrow> v) fn)"
    by (simp add: dict_to_list_def)
  with Cons show ?case by simp
qed

lemma set_fieldnames_of: "set (fieldnames_of rs) = (\<Union>r\<in>set rs. fst ` set r)"
  by (auto simp: fieldnames_of_def)

text \<open>
  C8.  For a non-empty list of records and a destination that can be opened,
  \<open>save_to_csv\<close> writes a table whose header is the sorted, duplicate-free list of all
  keys of all records (strings ordered lexicographically by code point), with one row per
  record in record order; the cell of a record under a field is the record's value, and the
  empty string when the record has no such key.
\<close>

theorem export_table:
  assumes "rs \<noteq> []" and "writable w out"
  shows "\<exists>w' t. save_to_csv rs out w = Inr w' \<and> files w' out = Some t \<and>
           sorted (header t) \<and> distinct (header t) \<and>
           set (header t) = (\<Union>r\<in>set rs. fst ` set r) \<and>
           length (body t) = length rs \<and>
           (\<forall>i<length rs. body t ! i =
               map (\<lambda>k. case map_of (rs ! i) k of None \<Rightarrow> PStr [] | Some v \<Rightarrow> v) (header t))"
proof -
  have "\<forall>r\<in>set rs. fst ` set r \<subseteq> set (fieldnames_of rs)"
    by (auto simp: set_fieldnames_of)
  then have "write_rows (fieldnames_of rs) rs [] =
      Inr (map (\<lambda>r. map (\<lambda>k. case map_of r k of None \<Rightarrow> PStr [] | Some v \<Rightarrow> v) (fieldnames_of rs)) rs)"
    using write_rows_all [of rs "fieldnames_of rs" "[]"] by simp
  moreover have "sorted (fieldnames_of rs)" "distinct (fieldnames_of rs)"
    by (simp_all add: fieldnames_of_def)
  ultimately show ?thesis
    using assms by (simp add: save_to_csv_def set_fieldnames_of)
qed

theorem export_table_witness:
  "\<exists>w' t. save_to_csv [[(''a'', PInt 1), (''b'', PStr ''x'')], [(''c'', PNone), (''a'', PInt 2)]] ''out.csv''
             \<lparr>events = [], files = Map.empty, writable = (\<lambda>p. True)\<rparr> = Inr w' \<and>
          files w' ''out.csv'' = Some t \<and> header t = [''a'', ''b'', ''c''] \<and>
          body t = [[PInt 1, PStr ''x'', PStr []], [PInt 2, PStr [], PNone]]"
  using export_table [of "[[(''a'', PInt 1), (''b'', PStr ''x'')], [(''c'', PNone), (''a'', PInt 2)]]"
      "\<lparr>events = [], files = Map.empty, writable = (\<lambda>p. True)\<rparr>" "''out.csv''"]
  by (simp add: save_to_csv_def fieldnames_of_def dict_to_list_def emit_def)

section \<open>Properties of discovery\<close>

lemma unique_loop_index:
  "unique_loop xs seen acc =
     acc @ map ((!) xs) (filter (\<lambda>i. xs ! i \<notin> seen \<union> set (take i xs)) [0..<length xs])"
proof (induction xs arbitrary: seen acc)
  case Nil
  then show ?case by simp
next
  case (Cons x xs)
  have upt: "[0..<length (x # xs)] = 0 # map Suc [0..<length xs]"
    by (simp add: upt_conv_Cons map_Suc_upt del: upt_Suc)
  show ?case
  proof (cases "x \<in> seen")
    case True
    then have "insert x seen = seen" by auto
    with True show ?thesis
      unfolding upt
      apply (simp add: Cons.IH filter_map comp_def)
      apply (rule arg_cong [where f = "map ((!) xs)"])
      apply (rule filter_cong)
       apply auto
      done
  next
    case False
    then show ?thesis
      unfolding upt
      apply (simp add: Cons.IH filter_map comp_def)
      apply (rule arg_cong [where f = "map ((!) xs)"])
      apply (rule filter_cong)
       apply auto
      done
  qed
qed

lemma set_unique_loop: "set (unique_loop xs seen acc) = set acc \<union> (set xs - seen)"
  by (induction xs arbitrary: seen acc) auto

lemma distinct_unique_loop:
  "distinct acc \<Longrightarrow> set acc \<subseteq> seen \<Longrightarrow> distinct (unique_loop xs seen acc)"
proof (induction xs arbitrary: seen acc)
  case Nil
  then show ?case by simp
next
  case (Cons x xs)
  show ?case
  proof (cases "x \<in> seen")
    case True
    with Cons show ?thesis by simp
  next
    case False
    with Cons.prems have "distinct (acc @ [x])" "set (acc @ [x]) \<subseteq> insert x seen"
      by auto
    then have "distinct (unique_loop xs (insert x seen) (acc @ [x]))"
      by (rule Cons.IH)
    with False show ?thesis by simp
  qed
qed

lemma discover_loop_all:
  assumes "map (\<lambda>kw. search_social_links chk ddgs (kw @ '' '' @ city) platform m) kws = map Inr rs"
  shows "discover_loop chk ddgs city platform m kws acc = Inr (acc @ concat rs)"
  using assms
proof (induction kws arbitrary: rs acc)
  case Nil
  then show ?case by simp
next
  case (Cons kw kws)
  then obtain r rs' where rs: "rs = r # rs'" by (cases rs) auto
  with Cons.prems have "search_social_links chk ddgs (kw @ '' '' @ city) platform m = Inr r"
    and "map (\<lambda>kw. search_social_links chk ddgs (kw @ '' '' @ city) platform m) kws = map Inr rs'"
    by simp_all
  then show ?case using Cons.IH [of rs' "acc @ r"] rs by simp
qed

text \<open>
  C1.  When the search of every keyword returns, say the lists \<open>rs\<close> in keyword order,
  \<open>discover_profiles\<close> returns the entries of their concatenation that occur there for
  the first time, in the order of these first occurrences: the entry at position \<open>i\<close> is
  kept exactly when it does not occur before \<open>i\<close>.  So the result has no duplicates and
  the same elements as the concatenation.
\<close>

theorem discover_profiles_first_seen_wins:
  assumes "map (\<lambda>kw. search_social_links chk ddgs (kw @ '' '' @ city) platform m) keywords = map Inr rs"
  shows "\<exists>us. discover_profiles chk ddgs city keywords platform m = Inr us \<and>
           us = map ((!) (concat rs))
                  (filter (\<lambda>i. concat rs ! i \<notin> set (take i (concat rs))) [0..<length (concat rs)]) \<and>
           distinct us \<and> set us = set (concat rs)"
proof -
  have d: "discover_profiles chk ddgs city keywords platform m = Inr (unique_loop (concat rs) {} [])"
    using discover_loop_all [OF assms, of "[]"] by (simp add: discover_profiles_def)
  have i: "unique_loop (concat rs) {} [] = map ((!) (concat rs))
                  (filter (\<lambda>i. concat rs ! i \<notin> set (take i (concat rs))) [0..<length (concat rs)])"
    by (simp add: unique_loop_index)
  have "distinct (unique_loop (concat rs) {} [])"
    by (rule distinct_unique_loop) simp_all
  moreover have "set (unique_loop (concat rs) {} []) = set (concat rs)"
    by (simp only: set_unique_loop) simp
  ultimately show ?thesis using d i by metis
qed

theorem discover_profiles_first_seen_wins_witness:
  "map (\<lambda>kw. search_social_links (\<lambda>h. True) demo_search (kw @ '' '' @ ''Chicago'') ''instagram.com'' 10)
       [''bar'', ''cafe'']
     = map Inr [[''https://instagram.com/a'', ''https://instagram.com/b''],
                [''https://instagram.com/b'', ''https://instagram.com/c'', ''https://instagram.com/a'']] \<and>
   discover_profiles (\<lambda>h. True) demo_search ''Chicago'' [''bar'', ''cafe''] ''instagram.com'' 10
     = Inr [''https://instagram.com/a'', ''https://instagram.com/b'', ''https://instagram.com/c'']"
proof -
  have h: "map (\<lambda>kw. search_social_links (\<lambda>h. True) demo_search (kw @ '' '' @ ''Chicago'') ''instagram.com'' 10)
       [''bar'', ''cafe'']
     = map Inr [[''https://instagram.com/a'', ''https://instagram.com/b''],
                [''https://instagram.com/b'', ''https://instagram.com/c'', ''https://instagram.com/a'']]"
    by code_simp
  have e: "map ((!) (concat [[''https://instagram.com/a'', ''https://instagram.com/b''],
                [''https://instagram.com/b'', ''https://instagram.com/c'', ''https://instagram.com/a'']]))
         (filter (\<lambda>i. concat [[''https://instagram.com/a'', ''https://instagram.com/b''],
                [''https://instagram.com/b'', ''https://instagram.com/c'', ''https://instagram.com/a'']] ! i
             \<notin> set (take i (concat [[''https://instagram.com/a'', ''https://instagram.com/b''],
                [''https://instagram.com/b'', ''https://instagram.com/c'', ''https://instagram.com/a'']])))
            [0..<length (concat [[''https://instagram.com/a'', ''https://instagram.com/b''],
                [''https://instagram.com/b'', ''https://instagram.com/c'', ''https://instagram.com/a'']])])
      = [''https://instagram.com/a'', ''https://instagram.com/b'', ''https://instagram.com/c'']"
    by code_simp
  from discover_profiles_first_seen_wins [OF h] e h show ?thesis by metis
qed

lemma collect_urls_filter:
  "collect_urls chk p hits acc = collect_urls chk p (filter (\<lambda>r. str_in p (hit_url r)) hits) acc"
  by (induction hits arbitrary: acc) (auto split: sum.splits)

lemma collect_urls_Inr:
  "collect_urls chk p hits acc = Inr us \<Longrightarrow>
   \<exists>cs. us = acc @ cs \<and>
        map (\<lambda>r. cleaned chk (hit_url r)) (filter (\<lambda>r. str_in p (hit_url r)) hits) = map Inr cs"
proof (induction hits arbitrary: acc)
  case Nil
  then show ?case by simp
next
  case (Cons r hits)
  show ?case
  proof (cases "str_in p (hit_url r)")
    case False
    with Cons show ?thesis by simp
  next
    case True
    with Cons.prems obtain c where c: "cleaned chk (hit_url r) = Inr c"
      and rest: "collect_urls chk p hits (acc @ [c]) = Inr us"
      by (auto split: sum.splits)
    from Cons.IH [OF rest] obtain cs where "us = (acc @ [c]) @ cs"
      "map (\<lambda>r. cleaned chk (hit_url r)) (filter (\<lambda>r. str_in p (hit_url r)) hits) = map Inr cs"
      by blast
    with True c have "us = acc @ (c # cs) \<and>
        map (\<lambda>r. cleaned chk (hit_url r)) (filter (\<lambda>r. str_in p (hit_url r)) (r # hits)) = map Inr (c # cs)"
      by simp
    then show ?thesis by blast
  qed
qed

lemma map_eq_map_Inr_set:
  assumes "map f xs = map Inr cs"
  shows "(c \<in> set cs) = (\<exists>x\<in>set xs. f x = Inr c)"
proof -
  have "Inr ` set cs = f ` set xs"
    using assms by (metis set_map)
  then show ?thesis by (auto simp: image_iff) (metis imageI image_iff sum.inject(2))+
qed

text \<open>
  C7.  The platform filter of \<open>search_social_links\<close> is the substring test
  \<open>platform in url\<close> on the raw URL of the hit and nothing else.  Hits that fail it
  contribute nothing, wherever they stand: the result (a list or an exception) is that of
  the same search with these hits removed, and a malformed URL among them is never parsed.
  A returned list holds exactly the cleaned URLs of the hits that pass; a hit passes as
  soon as the platform string occurs anywhere in its URL.
\<close>

theorem platform_filter_substring:
  assumes "ddgs (search_query biz platform) n = Inr (Some hits)"
  shows "search_social_links chk ddgs biz platform n
           = search_social_links chk
               (\<lambda>q k. Inr (Some (filter (\<lambda>r. str_in platform (hit_url r)) hits))) biz platform n \<and>
         (\<forall>r. str_in platform (hit_url r) = (\<exists>pre suf. hit_url r = pre @ platform @ suf)) \<and>
         (\<forall>us. search_social_links chk ddgs biz platform n = Inr us \<longrightarrow>
            (\<forall>c. (c \<in> set us) =
                (\<exists>r\<in>set hits. str_in platform (hit_url r) \<and> cleaned chk (hit_url r) = Inr c)))"
proof (intro conjI allI impI)
  show "search_social_links chk ddgs biz platform n
           = search_social_links chk
               (\<lambda>q k. Inr (Some (filter (\<lambda>r. str_in platform (hit_url r)) hits))) biz platform n"
    using assms collect_urls_filter [of chk platform hits "[]"]
    by (simp add: search_social_links_def)
next
  fix r show "str_in platform (hit_url r) = (\<exists>pre suf. hit_url r = pre @ platform @ suf)"
    by (simp add: str_in_def sublist_def)
next
  fix us c
  assume "search_social_links chk ddgs biz platform n = Inr us"
  with assms obtain urls where u: "collect_urls chk platform hits [] = Inr urls"
    and us: "us = unique_loop urls {} []"
    by (auto simp: search_social_links_def split: sum.splits)
  from collect_urls_Inr [OF u] have m: "map (\<lambda>r. cleaned chk (hit_url r))
      (filter (\<lambda>r. str_in platform (hit_url r)) hits) = map Inr urls"
    by simp
  have "set us = set urls" using us by (simp add: set_unique_loop)
  then show "(c \<in> set us) =
                (\<exists>r\<in>set hits. str_in platform (hit_url r) \<and> cleaned chk (hit_url r) = Inr c)"
    using map_eq_map_Inr_set [OF m, of c] by auto
qed

theorem platform_filter_substring_witness:
  "search_social_links (\<lambda>h. True) (\<lambda>q k. Inr (Some demo_hits)) ''joe'' ''instagram.com'' 10
     = Inr [''https://www.instagram.com/joe'', ''https://example.com/share''] \<and>
   search_social_links (\<lambda>h. True)
       (\<lambda>q k. Inr (Some (filter (\<lambda>r. str_in ''instagram.com'' (hit_url r)) demo_hits)))
       ''joe'' ''instagram.com'' 10
     = Inr [''https://www.instagram.com/joe'', ''https://example.com/share'']"
proof -
  have e: "search_social_links (\<lambda>h. True) (\<lambda>q k. Inr (Some demo_hits)) ''joe'' ''instagram.com'' 10
     = Inr [''https://www.instagram.com/joe'', ''https://example.com/share'']"
    by code_simp
  from platform_filter_substring [of "\<lambda>q k. Inr (Some demo_hits)" "''joe''" "''instagram.com''" 10
      demo_hits "\<lambda>h. True", OF refl] e
  show ?thesis by simp
qed

section \<open>Properties of the dispatchers\<close>

lemma emit_emit [simp]: "emit es2 (emit es1 w) = emit (es1 @ es2) w"
  by (simp add: emit_def)

lemma emit_Nil [simp]: "emit [] w = w"
  by (simp add: emit_def)

lemma extract_instagram_data_nonempty: "extract_instagram_data f u = Inr d \<Longrightarrow> d \<noteq> []"
  by (auto simp: extract_instagram_data_def split: sum.splits)

lemma extract_facebook_data_nonempty: "extract_facebook_data f u c = Inr d \<Longrightarrow> d \<noteq> []"
  by (auto simp: extract_facebook_data_def split: sum.splits)

lemma city_urls_append:
  "city_urls chk p ig fb ck (xs @ ys) i st =
     (case city_urls chk p ig fb ck xs i st of
        Inl e \<Rightarrow> Inl e
      | Inr st' \<Rightarrow> city_urls chk p ig fb ck ys (i + length xs) st')"
  by (induction xs arbitrary: i st) (auto split: sum.splits)

lemma main_urls_append:
  "main_urls chk p ig fb ck (xs @ ys) i st =
     (case main_urls chk p ig fb ck xs i st of
        Inl e \<Rightarrow> Inl e
      | Inr st' \<Rightarrow> main_urls chk p ig fb ck ys (i + length xs) st')"
  by (induction xs arbitrary: i st) (auto split: sum.splits)

lemma city_step_rate_limit:
  assumes "ensure_username_from_url chk url = Inr u" and "u \<noteq> []"
    and "from_username u = Inl QueryReturnedBadRequestException"
  shows "city_step chk ''instagram.com'' from_username gp ck url (rows, w)
           = Inr (rows, emit [Called u, RateLimitNotice, Sleep 300] w)"
  using assms by (simp add: city_step_def extract_instagram_data_def)

lemma main_step_rate_limit:
  assumes "ensure_username_from_url chk url = Inr u" and "u \<noteq> []"
    and "from_username u = Inl QueryReturnedBadRequestException"
  shows "main_step chk ''instagram.com'' from_username gp ck url (rows, w)
           = Inr (rows, emit [Called u, Failed url] w)"
  using assms by (simp add: main_step_def extract_instagram_data_def)

text \<open>
  The rate-limit rule of the city run.  When instaloader raises its bad-request exception
  at the call for the \<open>i\<close>-th URL, the loop of \<open>scrape_city\<close> is the loop over the
  URLs before \<open>i\<close>, then that one call, the notice and one \<open>time.sleep(300)\<close> with no
  record added, then the loop over the URLs after \<open>i\<close>, from position \<open>i + 1\<close>.  The
  loop of \<open>main\<close> in \<open>scraper.py\<close> decomposes in the same way, but its step for the
  \<open>i\<close>-th URL is the call and a failure line: it has no handler of its own for this
  exception.
\<close>

theorem rate_limit_cooldown:
  assumes "i < length urls" and "ensure_username_from_url chk (urls ! i) = Inr u" and "u \<noteq> []"
    and "ig i u = Inl QueryReturnedBadRequestException"
  shows "city_urls chk ''instagram.com'' ig fb ck urls 0 st =
           (case city_urls chk ''instagram.com'' ig fb ck (take i urls) 0 st of
              Inl e \<Rightarrow> Inl e
            | Inr (rows, w) \<Rightarrow>
                city_urls chk ''instagram.com'' ig fb ck (drop (Suc i) urls) (Suc i)
                  (rows, emit [Called u, RateLimitNotice, Sleep 300] w)) \<and>
         main_urls chk ''instagram.com'' ig fb ck urls 0 st =
           (case main_urls chk ''instagram.com'' ig fb ck (take i urls) 0 st of
              Inl e \<Rightarrow> Inl e
            | Inr (rows, w) \<Rightarrow>
                main_urls chk ''instagram.com'' ig fb ck (drop (Suc i) urls) (Suc i)
                  (rows, emit [Called u, Failed (urls ! i)] w))"
proof -
  have split: "urls = take i urls @ (urls ! i # drop (Suc i) urls)"
    using assms(1) by (simp add: id_take_nth_drop)
  have len: "length (take i urls) = i" using assms(1) by simp
  have c: "city_urls chk ''instagram.com'' ig fb ck (take i urls @ (urls ! i # drop (Suc i) urls)) 0 st =
           (case city_urls chk ''instagram.com'' ig fb ck (take i urls) 0 st of
              Inl e \<Rightarrow> Inl e
            | Inr (rows, w) \<Rightarrow>
                city_urls chk ''instagram.com'' ig fb ck (drop (Suc i) urls) (Suc i)
                  (rows, emit [Called u, RateLimitNotice, Sleep 300] w))"
    unfolding city_urls_append len
    by (auto split: sum.splits simp: city_step_rate_limit [where from_username = "ig i", OF assms(2,3,4)])
  have m: "main_urls chk ''instagram.com'' ig fb ck (take i urls @ (urls ! i # drop (Suc i) urls)) 0 st =
           (case main_urls chk ''instagram.com'' ig fb ck (take i urls) 0 st of
              Inl e \<Rightarrow> Inl e
            | Inr (rows, w) \<Rightarrow>
                main_urls chk ''instagram.com'' ig fb ck (drop (Suc i) urls) (Suc i)
                  (rows, emit [Called u, Failed (urls ! i)] w))"
    unfolding main_urls_append len
    by (auto split: sum.splits simp: main_step_rate_limit [where from_username = "ig i", OF assms(2,3,4)])
  from c m split show ?thesis by simp
qed

theorem rate_limit_cooldown_example:
  "1 < length demo_urls \<and>
   ensure_username_from_url any_host (demo_urls ! 1) = Inr ''ann'' \<and>
   rate_limited_at_1 1 ''ann'' = Inl QueryReturnedBadRequestException \<and>
   city_urls any_host ''instagram.com'' rate_limited_at_1 no_facebook None demo_urls 0 ([], empty_world) =
     (case city_urls any_host ''instagram.com'' rate_limited_at_1 no_facebook None (take 1 demo_urls) 0
             ([], empty_world) of
        Inl e \<Rightarrow> Inl e
      | Inr (rows, w) \<Rightarrow>
          city_urls any_host ''instagram.com'' rate_limited_at_1 no_facebook None
            (drop (Suc 1) demo_urls) (Suc 1)
            (rows, emit [Called ''ann'', RateLimitNotice, Sleep 300] w)) \<and>
   outcome (city_urls any_host ''instagram.com'' rate_limited_at_1 no_facebook None demo_urls 0 ([], empty_world))
     = Inr ([demo_row ''joe'', demo_row ''bob''],
            [Called ''joe'', Called ''ann'', RateLimitNotice, Sleep 300, Called ''bob''])"
proof -
  have h1: "1 < length demo_urls" by code_simp
  have h2: "ensure_username_from_url any_host (demo_urls ! 1) = Inr ''ann''" by code_simp
  have h3: "''ann'' \<noteq> []" by simp
  have h4: "rate_limited_at_1 1 ''ann'' = Inl QueryReturnedBadRequestException" by code_simp
  have e: "outcome (city_urls any_host ''instagram.com'' rate_limited_at_1 no_facebook None demo_urls 0 ([], empty_world))
     = Inr ([demo_row ''joe'', demo_row ''bob''],
            [Called ''joe'', Called ''ann'', RateLimitNotice, Sleep 300, Called ''bob''])"
    by code_simp
  note t = rate_limit_cooldown [where i = 1 and urls = demo_urls and chk = any_host and u = "''ann''"
      and ig = rate_limited_at_1 and fb = no_facebook and ck = None and st = "([], empty_world)",
      OF h1 h2 h3 h4]
  from h1 h2 h4 e t [THEN conjunct1] show ?thesis by (intro conjI)
qed

text \<open>
  C2.  The claim asks for one 300-second cooldown whenever the Instagram extractor signals
  the rate limit.  The loop of \<open>scrape_city\<close> does that (see above).  The loop of
  \<open>main\<close> in \<open>scraper.py\<close> does not: on three URLs, with the bad-request exception
  raised at the call for the second, it records the first and the third profile, prints
  one failure line for the second and never sleeps.
\<close>

theorem main_has_no_cooldown:
  "outcome (main_urls any_host ''instagram.com'' rate_limited_at_1 no_facebook None demo_urls 0 ([], empty_world))
     = Inr ([demo_row ''joe'', demo_row ''bob''],
            [Called ''joe'', Called ''ann'', Failed ''https://www.instagram.com/ann'', Called ''bob''])"
  by code_simp

lemma city_step_ok:
  assumes "ensure_username_from_url chk url = Inr u" and "u \<noteq> []"
    and "(if p = ''instagram.com'' then extract_instagram_data f u
          else extract_facebook_data g u ck) = Inr d"
  shows "city_step chk p f g ck url (rows, w) = Inr (rows @ [d], emit [Called u] w)"
  using assms extract_instagram_data_nonempty [of f u d] extract_facebook_data_nonempty [of g u ck d]
  by (auto simp: city_step_def split: if_splits)

lemma city_step_fail:
  assumes "ensure_username_from_url chk url = Inr u" and "u \<noteq> []"
    and "(if p = ''instagram.com'' then extract_instagram_data f u
          else extract_facebook_data g u ck) = Inl e"
    and "e \<noteq> QueryReturnedBadRequestException"
  shows "city_step chk p f g ck url (rows, w) = Inr (rows, emit [Called u, Failed url] w)"
  using assms by (cases e) (auto simp: city_step_def split: if_splits)

lemma main_step_ok:
  assumes "ensure_username_from_url chk url = Inr u" and "u \<noteq> []"
    and "(if p = ''instagram.com'' then extract_instagram_data f u
          else extract_facebook_data g u ck) = Inr d"
  shows "main_step chk p f g ck url (rows, w) = Inr (rows @ [d], emit [Called u] w)"
  using assms by (auto simp: main_step_def split: if_splits)

lemma main_step_fail:
  assumes "ensure_username_from_url chk url = Inr u" and "u \<noteq> []"
    and "(if p = ''instagram.com'' then extract_instagram_data f u
          else extract_facebook_data g u ck) = Inl e"
  shows "main_step chk p f g ck url (rows, w) = Inr (rows, emit [Called u, Failed url] w)"
  using assms by (auto simp: main_step_def split: if_splits)

lemma city_urls_one_failure:
  assumes "\<forall>j<length urls. ensure_username_from_url chk (urls ! j) = Inr (u j) \<and> u j \<noteq> []"
    and "\<forall>j<length urls. j \<noteq> k \<longrightarrow>
           (if p = ''instagram.com'' then extract_instagram_data (ig j) (u j)
            else extract_facebook_data (fb j) (u j) ck) = Inr (r j)"
    and "k < length urls \<longrightarrow>
           (if p = ''instagram.com'' then extract_instagram_data (ig k) (u k)
            else extract_facebook_data (fb k) (u k) ck) = Inl e"
    and "e \<noteq> QueryReturnedBadRequestException"
  shows "city_urls chk p ig fb ck urls 0 (rows, w) =
           Inr (rows @ map r (filter (\<lambda>j. j \<noteq> k) [0..<length urls]),
                emit (concat (map (\<lambda>j. if j = k then [Called (u j), Failed (urls ! j)]
                                        else [Called (u j)]) [0..<length urls])) w)"
  using assms(1,2,3)
proof (induction urls rule: rev_induct)
  case Nil
  then show ?case by simp
next
  case (snoc x xs)
  let ?n = "length xs"
  define R where "R = map r (filter (\<lambda>j. j \<noteq> k) [0..<?n])"
  define E where "E = concat (map (\<lambda>j. if j = k then [Called (u j), Failed (xs ! j)]
                                        else [Called (u j)]) [0..<?n])"
  define F where "F = (\<lambda>j. if j = k then [Called (u j), Failed ((xs @ [x]) ! j)]
                                        else [Called (u j)])"
  have "city_urls chk p ig fb ck xs 0 (rows, w) =
           Inr (rows @ map r (filter (\<lambda>j. j \<noteq> k) [0..<?n]),
                emit (concat (map (\<lambda>j. if j = k then [Called (u j), Failed (xs ! j)]
                                        else [Called (u j)]) [0..<?n])) w)"
  proof (rule snoc.IH)
    show "\<forall>j<?n. ensure_username_from_url chk (xs ! j) = Inr (u j) \<and> u j \<noteq> []"
      using snoc.prems(1) by (auto simp: nth_append split: if_splits)
    show "\<forall>j<?n. j \<noteq> k \<longrightarrow>
           (if p = ''instagram.com'' then extract_instagram_data (ig j) (u j)
            else extract_facebook_data (fb j) (u j) ck) = Inr (r j)"
      using snoc.prems(2) by auto
    show "k < ?n \<longrightarrow>
           (if p = ''instagram.com'' then extract_instagram_data (ig k) (u k)
            else extract_facebook_data (fb k) (u k) ck) = Inl e"
      using snoc.prems(3) by auto
  qed
  then have pre: "city_urls chk p ig fb ck xs 0 (rows, w) = Inr (rows @ R, emit E w)"
    by (simp only: R_def E_def)
  have lhs: "city_urls chk p ig fb ck (xs @ [x]) 0 (rows, w)
               = city_step chk p (ig ?n) (fb ?n) ck x (rows @ R, emit E w)"
    by (simp add: city_urls_append pre split: sum.splits)
  have "map F [0..<?n] = map (\<lambda>j. if j = k then [Called (u j), Failed (xs ! j)]
                                        else [Called (u j)]) [0..<?n]"
    by (simp add: F_def nth_append)
  then have EF: "concat (map F [0..<?n]) = E"
    by (simp only: E_def)
  have rhsE: "concat (map F [0..<length (xs @ [x])]) = E @ F ?n"
    by (simp add: EF)
  have ux: "ensure_username_from_url chk x = Inr (u ?n)" "u ?n \<noteq> []"
    using snoc.prems(1) by (auto dest: spec [of _ ?n])
  have "city_urls chk p ig fb ck (xs @ [x]) 0 (rows, w) =
           Inr (rows @ map r (filter (\<lambda>j. j \<noteq> k) [0..<length (xs @ [x])]),
                emit (concat (map F [0..<length (xs @ [x])])) w)"
  proof (cases "?n = k")
    case True
    then have ext: "(if p = ''instagram.com'' then extract_instagram_data (ig ?n) (u ?n)
            else extract_facebook_data (fb ?n) (u ?n) ck) = Inl e"
      using snoc.prems(3) by (auto split: if_splits)
    have st: "city_step chk p (ig ?n) (fb ?n) ck x (rows @ R, emit E w)
        = Inr (rows @ R, emit [Called (u ?n), Failed x] (emit E w))"
      by (rule city_step_fail [OF ux ext assms(4)])
    have "F ?n = [Called (u ?n), Failed x]" using True [symmetric] by (simp add: F_def)
    moreover have "map r (filter (\<lambda>j. j \<noteq> k) [0..<length (xs @ [x])]) = R"
      using True [symmetric] by (simp add: R_def)
    ultimately show ?thesis
      by (simp only: lhs st rhsE emit_emit)
  next
    case False
    then have ext: "(if p = ''instagram.com'' then extract_instagram_data (ig ?n) (u ?n)
            else extract_facebook_data (fb ?n) (u ?n) ck) = Inr (r ?n)"
      using snoc.prems(2) by (auto split: if_splits)
    have st: "city_step chk p (ig ?n) (fb ?n) ck x (rows @ R, emit E w)
        = Inr ((rows @ R) @ [r ?n], emit [Called (u ?n)] (emit E w))"
      by (rule city_step_ok [OF ux ext])
    have "F ?n = [Called (u ?n)]" using False by (simp add: F_def)
    moreover have "map r (filter (\<lambda>j. j \<noteq> k) [0..<length (xs @ [x])]) = R @ [r ?n]"
      using False by (simp add: R_def)
    ultimately show ?thesis
      by (simp only: lhs st rhsE emit_emit append_assoc)
  qed
  then show ?case by (simp only: F_def)
qed

lemma main_urls_one_failure:
  assumes "\<forall>j<length urls. ensure_username_from_url chk (urls ! j) = Inr (u j) \<and> u j \<noteq> []"
    and "\<forall>j<length urls. j \<noteq> k \<longrightarrow>
           (if p = ''instagram.com'' then extract_instagram_data (ig j) (u j)
            else extract_facebook_data (fb j) (u j) ck) = Inr (r j)"
    and "k < length urls \<longrightarrow>
           (if p = ''instagram.com'' then extract_instagram_data (ig k) (u k)
            else extract_facebook_data (fb k) (u k) ck) = Inl e"
    and "e \<noteq> QueryReturnedBadRequestException"
  shows "main_urls chk p ig fb ck urls 0 (rows, w) =
           Inr (rows @ map r (filter (\<lambda>j. j \<noteq> k) [0..<length urls]),
                emit (concat (map (\<lambda>j. if j = k then [Called (u j), Failed (urls ! j)]
                                        else [Called (u j)]) [0..<length urls])) w)"
  using assms(1,2,3)
proof (induction urls rule: rev_induct)
  case Nil
  then show ?case by simp
next
  case (snoc x xs)
  let ?n = "length xs"
  define R where "R = map r (filter (\<lambda>j. j \<noteq> k) [0..<?n])"
  define E where "E = concat (map (\<lambda>j. if j = k then [Called (u j), Failed (xs ! j)]
                                        else [Called (u j)]) [0..<?n])"
  define F where "F = (\<lambda>j. if j = k then [Called (u j), Failed ((xs @ [x]) ! j)]
                                        else [Called (u j)])"
  have "main_urls chk p ig fb ck xs 0 (rows, w) =
           Inr (rows @ map r (filter (\<lambda>j. j \<noteq> k) [0..<?n]),
                emit (concat (map (\<lambda>j. if j = k then [Called (u j), Failed (xs ! j)]
                                        else [Called (u j)]) [0..<?n])) w)"
  proof (rule snoc.IH)
    show "\<forall>j<?n. ensure_username_from_url chk (xs ! j) = Inr (u j) \<and> u j \<noteq> []"
      using snoc.prems(1) by (auto simp: nth_append split: if_splits)
    show "\<forall>j<?n. j \<noteq> k \<longrightarrow>
           (if p = ''instagram.com'' then extract_instagram_data (ig j) (u j)
            else extract_facebook_data (fb j) (u j) ck) = Inr (r j)"
      using snoc.prems(2) by auto
    show "k < ?n \<longrightarrow>
           (if p = ''instagram.com'' then extract_instagram_data (ig k) (u k)
            else extract_facebook_data (fb k) (u k) ck) = Inl e"
      using snoc.prems(3) by auto
  qed
  then have pre: "main_urls chk p ig fb ck xs 0 (rows, w) = Inr (rows @ R, emit E w)"
    by (simp only: R_def E_def)
  have lhs: "main_urls chk p ig fb ck (xs @ [x]) 0 (rows, w)
               = main_step chk p (ig ?n) (fb ?n) ck x (rows @ R, emit E w)"
    by (simp add: main_urls_append pre split: sum.splits)
  have "map F [0..<?n] = map (\<lambda>j. if j = k then [Called (u j), Failed (xs ! j)]
                                        else [Called (u j)]) [0..<?n]"
    by (simp add: F_def nth_append)
  then have EF: "concat (map F [0..<?n]) = E"
    by (simp only: E_def)
  have rhsE: "concat (map F [0..<length (xs @ [x])]) = E @ F ?n"
    by (simp add: EF)
  have ux: "ensure_username_from_url chk x = Inr (u ?n)" "u ?n \<noteq> []"
    using snoc.prems(1) by (auto dest: spec [of _ ?n])
  have "main_urls chk p ig fb ck (xs @ [x]) 0 (rows, w) =
           Inr (rows @ map r (filter (\<lambda>j. j \<noteq> k) [0..<length (xs @ [x])]),
                emit (concat (map F [0..<length (xs @ [x])])) w)"
  proof (cases "?n = k")
    case True
    then have ext: "(if p = ''instagram.com'' then extract_instagram_data (ig ?n) (u ?n)
            else extract_facebook_data (fb ?n) (u ?n) ck) = Inl e"
      using snoc.prems(3) by (auto split: if_splits)
    have st: "main_step chk p (ig ?n) (fb ?n) ck x (rows @ R, emit E w)
        = Inr (rows @ R, emit [Called (u ?n), Failed x] (emit E w))"
      by (rule main_step_fail [OF ux ext])
    have "F ?n = [Called (u ?n), Failed x]" using True [symmetric] by (simp add: F_def)
    moreover have "map r (filter (\<lambda>j. j \<noteq> k) [0..<length (xs @ [x])]) = R"
      using True [symmetric] by (simp add: R_def)
    ultimately show ?thesis
      by (simp only: lhs st rhsE emit_emit)
  next
    case False
    then have ext: "(if p = ''instagram.com'' then extract_instagram_data (ig ?n) (u ?n)
            else extract_facebook_data (fb ?n) (u ?n) ck) = Inr (r ?n)"
      using snoc.prems(2) by (auto split: if_splits)
    have st: "main_step chk p (ig ?n) (fb ?n) ck x (rows @ R, emit E w)
        = Inr ((rows @ R) @ [r ?n], emit [Called (u ?n)] (emit E w))"
      by (rule main_step_ok [OF ux ext])
    have "F ?n = [Called (u ?n)]" using False by (simp add: F_def)
    moreover have "map r (filter (\<lambda>j. j \<noteq> k) [0..<length (xs @ [x])]) = R @ [r ?n]"
      using False by (simp add: R_def)
    ultimately show ?thesis
      by (simp only: lhs st rhsE emit_emit append_assoc)
  qed
  then show ?case by (simp only: F_def)
qed

lemma length_filter_neq_upt:
  "length (filter (\<lambda>j. j \<noteq> k) [0..<n]) = (if k < n then n - 1 else n)"
  by (induction n) auto

lemma city_step_total:
  assumes "ensure_username_from_url chk url = Inr name" and "name \<noteq> []"
  shows "\<exists>w'. city_step chk p f g ck url (rows, w) =
           Inr (rows @ (case (if p = ''instagram.com'' then extract_instagram_data f name
                             else extract_facebook_data g name ck) of
                          Inl e \<Rightarrow> [] | Inr d \<Rightarrow> [d]), w')"
proof (cases "if p = ''instagram.com'' then extract_instagram_data f name
              else extract_facebook_data g name ck")
  case (Inr d)
  from city_step_ok [OF assms Inr] Inr show ?thesis by simp
next
  case (Inl e)
  show ?thesis
  proof (cases "p = ''instagram.com'' \<and> e = QueryReturnedBadRequestException")
    case True
    with Inl have "f name = Inl QueryReturnedBadRequestException"
      by (auto simp: extract_instagram_data_def split: sum.splits)
    from city_step_rate_limit [where from_username = f, OF assms this] True Inl show ?thesis by simp
  next
    case False
    with Inl assms show ?thesis
      by (cases e) (auto simp: city_step_def split: if_splits)
  qed
qed

lemma main_step_total:
  assumes "ensure_username_from_url chk url = Inr name" and "name \<noteq> []"
  shows "\<exists>w'. main_step chk p f g ck url (rows, w) =
           Inr (rows @ (case (if p = ''instagram.com'' then extract_instagram_data f name
                             else extract_facebook_data g name ck) of
                          Inl e \<Rightarrow> [] | Inr d \<Rightarrow> [d]), w')"
proof (cases "if p = ''instagram.com'' then extract_instagram_data f name
              else extract_facebook_data g name ck")
  case (Inr d)
  from main_step_ok [OF assms Inr] Inr show ?thesis by simp
next
  case (Inl e)
  from main_step_fail [OF assms Inl] Inl show ?thesis by simp
qed

lemma city_urls_never_aborts:
  assumes "\<forall>j<length urls. ensure_username_from_url chk (urls ! j) = Inr (u j) \<and> u j \<noteq> []"
  shows "\<exists>w'. city_urls chk p ig fb ck urls 0 (rows, w) =
           Inr (rows @ concat (map (\<lambda>j. case (if p = ''instagram.com''
                                                then extract_instagram_data (ig j) (u j)
                                                else extract_facebook_data (fb j) (u j) ck) of
                                          Inl e \<Rightarrow> [] | Inr d \<Rightarrow> [d]) [0..<length urls]), w')"
  using assms
proof (induction urls rule: rev_induct)
  case Nil
  then show ?case by simp
next
  case (snoc x xs)
  let ?n = "length xs"
  define R where "R = concat (map (\<lambda>j. case (if p = ''instagram.com''
                                                then extract_instagram_data (ig j) (u j)
                                                else extract_facebook_data (fb j) (u j) ck) of
                                          Inl e \<Rightarrow> [] | Inr d \<Rightarrow> [d]) [0..<?n])"
  have "\<forall>j<?n. ensure_username_from_url chk (xs ! j) = Inr (u j) \<and> u j \<noteq> []"
    using snoc.prems by (auto simp: nth_append split: if_splits)
  from snoc.IH [OF this] obtain w1 where
    pre: "city_urls chk p ig fb ck xs 0 (rows, w) = Inr (rows @ R, w1)"
    unfolding R_def by blast
  have ux: "ensure_username_from_url chk x = Inr (u ?n)" "u ?n \<noteq> []"
    using snoc.prems by (auto dest: spec [of _ ?n])
  from city_step_total [OF ux, of p "ig ?n" "fb ?n" ck "rows @ R" w1] obtain w2 where
    st: "city_step chk p (ig ?n) (fb ?n) ck x (rows @ R, w1) =
           Inr ((rows @ R) @ (case (if p = ''instagram.com''
                                    then extract_instagram_data (ig ?n) (u ?n)
                                    else extract_facebook_data (fb ?n) (u ?n) ck) of
                                Inl e \<Rightarrow> [] | Inr d \<Rightarrow> [d]), w2)"
    by blast
  have "city_urls chk p ig fb ck (xs @ [x]) 0 (rows, w) =
          Inr ((rows @ R) @ (case (if p = ''instagram.com''
                                    then extract_instagram_data (ig ?n) (u ?n)
                                    else extract_facebook_data (fb ?n) (u ?n) ck) of
                                Inl e \<Rightarrow> [] | Inr d \<Rightarrow> [d]), w2)"
    by (simp only: city_urls_append pre sum.case city_urls.simps add_0 st)
  then show ?case by (auto simp: R_def)
qed

lemma main_urls_never_aborts:
  assumes "\<forall>j<length urls. ensure_username_from_url chk (urls ! j) = Inr (u j) \<and> u j \<noteq> []"
  shows "\<exists>w'. main_urls chk p ig fb ck urls 0 (rows, w) =
           Inr (rows @ concat (map (\<lambda>j. case (if p = ''instagram.com''
                                                then extract_instagram_data (ig j) (u j)
                                                else extract_facebook_data (fb j) (u j) ck) of
                                          Inl e \<Rightarrow> [] | Inr d \<Rightarrow> [d]) [0..<length urls]), w')"
  using assms
proof (induction urls rule: rev_induct)
  case Nil
  then show ?case by simp
next
  case (snoc x xs)
  let ?n = "length xs"
  define R where "R = concat (map (\<lambda>j. case (if p = ''instagram.com''
                                                then extract_instagram_data (ig j) (u j)
                                                else extract_facebook_data (fb j) (u j) ck) of
                                          Inl e \<Rightarrow> [] | Inr d \<Rightarrow> [d]) [0..<?n])"
  have "\<forall>j<?n. ensure_username_from_url chk (xs ! j) = Inr (u j) \<and> u j \<noteq> []"
    using snoc.prems by (auto simp: nth_append split: if_splits)
  from snoc.IH [OF this] obtain w1 where
    pre: "main_urls chk p ig fb ck xs 0 (rows, w) = Inr (rows @ R, w1)"
    unfolding R_def by blast
  have ux: "ensure_username_from_url chk x = Inr (u ?n)" "u ?n \<noteq> []"
    using snoc.prems by (auto dest: spec [of _ ?n])
  from main_step_total [OF ux, of p "ig ?n" "fb ?n" ck "rows @ R" w1] obtain w2 where
    st: "main_step chk p (ig ?n) (fb ?n) ck x (rows @ R, w1) =
           Inr ((rows @ R) @ (case (if p = ''instagram.com''
                                    then extract_instagram_data (ig ?n) (u ?n)
                                    else extract_facebook_data (fb ?n) (u ?n) ck) of
                                Inl e \<Rightarrow> [] | Inr d \<Rightarrow> [d]), w2)"
    by blast
  have "main_urls chk p ig fb ck (xs @ [x]) 0 (rows, w) =
          Inr ((rows @ R) @ (case (if p = ''instagram.com''
                                    then extract_instagram_data (ig ?n) (u ?n)
                                    else extract_facebook_data (fb ?n) (u ?n) ck) of
                                Inl e \<Rightarrow> [] | Inr d \<Rightarrow> [d]), w2)"
    by (simp only: main_urls_append pre sum.case main_urls.simps add_0 st)
  then show ?case by (auto simp: R_def)
qed

text \<open>
  C3.  Take \<open>N\<close> URLs that all have a non-empty identifier.  Whatever the extractor does
  at each call, both dispatcher loops run to the end without an exception, and the records
  they add are those of the calls that returned, in processing order: no extractor failure,
  of any kind and in any number, aborts the batch.  In particular, when the extractor
  raises at the call for the \<open>k\<close>-th URL only, with an exception other than the
  bad-request one, the loops add the records of all URLs but the \<open>k\<close>-th, \<open>N - 1\<close> of
  them; the extractor is called once for every URL, also for those after the \<open>k\<close>-th,
  and the only failure line is that of the \<open>k\<close>-th URL.
\<close>

theorem extractor_failure_isolated:
  assumes "\<forall>j<length urls. ensure_username_from_url chk (urls ! j) = Inr (u j) \<and> u j \<noteq> []"
  shows "(\<exists>w'. city_urls chk p ig fb ck urls 0 (rows, w) =
           Inr (rows @ concat (map (\<lambda>j. case (if p = ''instagram.com''
                                                then extract_instagram_data (ig j) (u j)
                                                else extract_facebook_data (fb j) (u j) ck) of
                                          Inl e \<Rightarrow> [] | Inr d \<Rightarrow> [d]) [0..<length urls]), w')) \<and>
         (\<exists>w'. main_urls chk p ig fb ck urls 0 (rows, w) =
           Inr (rows @ concat (map (\<lambda>j. case (if p = ''instagram.com''
                                                then extract_instagram_data (ig j) (u j)
                                                else extract_facebook_data (fb j) (u j) ck) of
                                          Inl e \<Rightarrow> [] | Inr d \<Rightarrow> [d]) [0..<length urls]), w')) \<and>
         (k < length urls \<and>
          (\<forall>j<length urls. j \<noteq> k \<longrightarrow>
             (if p = ''instagram.com'' then extract_instagram_data (ig j) (u j)
              else extract_facebook_data (fb j) (u j) ck) = Inr (r j)) \<and>
          (if p = ''instagram.com'' then extract_instagram_data (ig k) (u k)
           else extract_facebook_data (fb k) (u k) ck) = Inl e \<and>
          e \<noteq> QueryReturnedBadRequestException \<longrightarrow>
            city_urls chk p ig fb ck urls 0 (rows, w) =
              Inr (rows @ map r (filter (\<lambda>j. j \<noteq> k) [0..<length urls]),
                   emit (concat (map (\<lambda>j. if j = k then [Called (u j), Failed (urls ! j)]
                                           else [Called (u j)]) [0..<length urls])) w) \<and>
            main_urls chk p ig fb ck urls 0 (rows, w) =
              Inr (rows @ map r (filter (\<lambda>j. j \<noteq> k) [0..<length urls]),
                   emit (concat (map (\<lambda>j. if j = k then [Called (u j), Failed (urls ! j)]
                                           else [Called (u j)]) [0..<length urls])) w) \<and>
            length (map r (filter (\<lambda>j. j \<noteq> k) [0..<length urls])) = length urls - 1)"
proof (intro conjI impI)
  show "\<exists>w'. city_urls chk p ig fb ck urls 0 (rows, w) =
           Inr (rows @ concat (map (\<lambda>j. case (if p = ''instagram.com''
                                                then extract_instagram_data (ig j) (u j)
                                                else extract_facebook_data (fb j) (u j) ck) of
                                          Inl e \<Rightarrow> [] | Inr d \<Rightarrow> [d]) [0..<length urls]), w')"
    by (rule city_urls_never_aborts [OF assms])
  show "\<exists>w'. main_urls chk p ig fb ck urls 0 (rows, w) =
           Inr (rows @ concat (map (\<lambda>j. case (if p = ''instagram.com''
                                                then extract_instagram_data (ig j) (u j)
                                                else extract_facebook_data (fb j) (u j) ck) of
                                          Inl e \<Rightarrow> [] | Inr d \<Rightarrow> [d]) [0..<length urls]), w')"
    by (rule main_urls_never_aborts [OF assms])
next
  assume a: "k < length urls \<and>
          (\<forall>j<length urls. j \<noteq> k \<longrightarrow>
             (if p = ''instagram.com'' then extract_instagram_data (ig j) (u j)
              else extract_facebook_data (fb j) (u j) ck) = Inr (r j)) \<and>
          (if p = ''instagram.com'' then extract_instagram_data (ig k) (u k)
           else extract_facebook_data (fb k) (u k) ck) = Inl e \<and>
          e \<noteq> QueryReturnedBadRequestException"
  then have others: "\<forall>j<length urls. j \<noteq> k \<longrightarrow>
             (if p = ''instagram.com'' then extract_instagram_data (ig j) (u j)
              else extract_facebook_data (fb j) (u j) ck) = Inr (r j)"
    and k: "k < length urls \<longrightarrow>
           (if p = ''instagram.com'' then extract_instagram_data (ig k) (u k)
            else extract_facebook_data (fb k) (u k) ck) = Inl e"
    and e: "e \<noteq> QueryReturnedBadRequestException"
    by blast+
  show "city_urls chk p ig fb ck urls 0 (rows, w) =
           Inr (rows @ map r (filter (\<lambda>j. j \<noteq> k) [0..<length urls]),
                emit (concat (map (\<lambda>j. if j = k then [Called (u j), Failed (urls ! j)]
                                        else [Called (u j)]) [0..<length urls])) w)"
    by (rule city_urls_one_failure [OF assms others k e])
  show "main_urls chk p ig fb ck urls 0 (rows, w) =
           Inr (rows @ map r (filter (\<lambda>j. j \<noteq> k) [0..<length urls]),
                emit (concat (map (\<lambda>j. if j = k then [Called (u j), Failed (urls ! j)]
                                        else [Called (u j)]) [0..<length urls])) w)"
    by (rule main_urls_one_failure [OF assms others k e])
  show "length (map r (filter (\<lambda>j. j \<noteq> k) [0..<length urls])) = length urls - 1"
    using a by (simp add: length_filter_neq_upt)
qed

theorem extractor_failure_isolated_witness:
  "outcome (city_urls any_host ''instagram.com'' failing_at_1 no_facebook None demo_urls 0 ([], empty_world))
     = Inr ([demo_row ''joe'', demo_row ''bob''],
            [Called ''joe'', Called ''ann'', Failed ''https://www.instagram.com/ann'', Called ''bob'']) \<and>
   outcome (main_urls any_host ''instagram.com'' failing_at_1 no_facebook None demo_urls 0 ([], empty_world))
     = Inr ([demo_row ''joe'', demo_row ''bob''],
            [Called ''joe'', Called ''ann'', Failed ''https://www.instagram.com/ann'', Called ''bob'']) \<and>
   outcome (city_urls any_host ''instagram.com'' two_failures no_facebook None demo_urls 0 ([], empty_world))
     = Inr ([demo_row ''bob''],
            [Called ''joe'', Failed ''https://www.instagram.com/joe'',
             Called ''ann'', RateLimitNotice, Sleep 300, Called ''bob'']) \<and>
   outcome (main_urls any_host ''instagram.com'' two_failures no_facebook None demo_urls 0 ([], empty_world))
     = Inr ([demo_row ''bob''],
            [Called ''joe'', Failed ''https://www.instagram.com/joe'',
             Called ''ann'', Failed ''https://www.instagram.com/ann'', Called ''bob''])"
proof -
  have idx: "j = 0 \<or> j = 1 \<or> j = 2" if "j < length demo_urls" for j
    using that by (auto simp: demo_urls_def)
  have n0: "ensure_username_from_url any_host (demo_urls ! 0) = Inr (demo_names ! 0) \<and> demo_names ! 0 \<noteq> []"
    by code_simp
  have n1: "ensure_username_from_url any_host (demo_urls ! 1) = Inr (demo_names ! 1) \<and> demo_names ! 1 \<noteq> []"
    by code_simp
  have n2: "ensure_username_from_url any_host (demo_urls ! 2) = Inr (demo_names ! 2) \<and> demo_names ! 2 \<noteq> []"
    by code_simp
  have h2: "\<forall>j<length demo_urls.
      ensure_username_from_url any_host (demo_urls ! j) = Inr (demo_names ! j) \<and> demo_names ! j \<noteq> []"
    using idx n0 n1 n2 by blast
  have r0: "extract_instagram_data (failing_at_1 0) (demo_names ! 0) = Inr (demo_row (demo_names ! 0))"
    by code_simp
  have r2: "extract_instagram_data (failing_at_1 2) (demo_names ! 2) = Inr (demo_row (demo_names ! 2))"
    by code_simp
  have h3: "\<forall>j<length demo_urls. j \<noteq> 1 \<longrightarrow>
      (if ''instagram.com'' = ''instagram.com'' then extract_instagram_data (failing_at_1 j) (demo_names ! j)
       else extract_facebook_data (no_facebook j) (demo_names ! j) None) = Inr (demo_row (demo_names ! j))"
    using idx r0 r2 by auto
  have h4: "(if ''instagram.com'' = ''instagram.com'' then extract_instagram_data (failing_at_1 1) (demo_names ! 1)
       else extract_facebook_data (no_facebook 1) (demo_names ! 1) None) = Inl OtherException"
    by code_simp
  have h1: "1 < length demo_urls" by code_simp
  have h5: "OtherException \<noteq> QueryReturnedBadRequestException" by simp
  note t = extractor_failure_isolated [where k = 1 and urls = demo_urls and chk = any_host
      and u = "\<lambda>j. demo_names ! j" and r = "\<lambda>j. demo_row (demo_names ! j)" and p = "''instagram.com''"
      and ig = failing_at_1 and fb = no_facebook and ck = None and e = OtherException
      and rows = "[]" and w = empty_world, OF h2]
  note c = t [THEN conjunct2, THEN conjunct2, THEN mp, OF conjI [OF h1 conjI [OF h3 conjI [OF h4 h5]]]]
  have f: "filter (\<lambda>j. j \<noteq> 1) [0..<length demo_urls] = [0, 2]"
    by code_simp
  have u: "[0..<length demo_urls] = [0, 1, 2]"
    by code_simp
  from c have one: "outcome (city_urls any_host ''instagram.com'' failing_at_1 no_facebook None demo_urls 0 ([], empty_world))
     = Inr ([demo_row ''joe'', demo_row ''bob''],
            [Called ''joe'', Called ''ann'', Failed ''https://www.instagram.com/ann'', Called ''bob'']) \<and>
   outcome (main_urls any_host ''instagram.com'' failing_at_1 no_facebook None demo_urls 0 ([], empty_world))
     = Inr ([demo_row ''joe'', demo_row ''bob''],
            [Called ''joe'', Called ''ann'', Failed ''https://www.instagram.com/ann'', Called ''bob''])"
    by (simp add: outcome_def f u demo_names_def demo_urls_def empty_world_def)
  have two_city: "outcome (city_urls any_host ''instagram.com'' two_failures no_facebook None demo_urls 0 ([], empty_world))
     = Inr ([demo_row ''bob''],
            [Called ''joe'', Failed ''https://www.instagram.com/joe'',
             Called ''ann'', RateLimitNotice, Sleep 300, Called ''bob''])"
    by code_simp
  have two_main: "outcome (main_urls any_host ''instagram.com'' two_failures no_facebook None demo_urls 0 ([], empty_world))
     = Inr ([demo_row ''bob''],
            [Called ''joe'', Failed ''https://www.instagram.com/joe'',
             Called ''ann'', Failed ''https://www.instagram.com/ann'', Called ''bob''])"
    by code_simp
  from one two_city two_main show ?thesis by (intro conjI) blast+
qed

text \<open>The hypothesis on the identifiers is needed.  \<open>ensure_username_from_url\<close> is called
  before the \<open>try\<close> in both loops, so a URL that \<open>urlparse\<close> rejects ends the loop with
  its exception.\<close>

lemma unparsable_url_aborts:
  "outcome (city_urls any_host ''instagram.com'' failing_at_1 no_facebook None
     [''https://www.instagram.com/joe'', ''http://[instagram.com/ann''] 0 ([], empty_world)) = Inl ValueError \<and>
   outcome (main_urls any_host ''instagram.com'' failing_at_1 no_facebook None
     [''https://www.instagram.com/joe'', ''http://[instagram.com/ann''] 0 ([], empty_world)) = Inl ValueError"
  by code_simp

section \<open>Properties of the URL functions\<close>

lemma split_hd: "\<exists>ws. split c s = takeWhile (\<lambda>x. x \<noteq> c) s # ws"
proof (induction s)
  case Nil
  then show ?case by simp
next
  case (Cons x s)
  then obtain ws where "split c s = takeWhile (\<lambda>x. x \<noteq> c) s # ws" by blast
  then show ?case by simp
qed

lemma first_part_split:
  "(case filter (\<lambda>p. p \<noteq> []) (split c s) of [] \<Rightarrow> [] | p # _ \<Rightarrow> p)
     = takeWhile (\<lambda>x. x \<noteq> c) (dropWhile (\<lambda>x. x = c) s)"
proof (induction s)
  case Nil
  then show ?case by simp
next
  case (Cons x s)
  obtain ws where ws: "split c s = takeWhile (\<lambda>x. x \<noteq> c) s # ws"
    using split_hd by blast
  show ?case
  proof (cases "x = c")
    case True
    with Cons show ?thesis by simp
  next
    case False
    with ws show ?thesis by simp
  qed
qed

lemma dropWhile_eq_replicate:
  "takeWhile (\<lambda>x. x = c) s = replicate (length (takeWhile (\<lambda>x. x = c) s)) c"
  by (induction s) auto

text \<open>
  C6.  \<open>ensure_username_from_url\<close> raises what \<open>urlparse\<close> raises.  When \<open>urlparse\<close>
  returns, it returns the first non-empty part of the path between slashes: the path is
  some slashes, then the name, then nothing or a slash and more; the name contains no
  slash, and it is empty exactly when the path has no character other than a slash.
\<close>

theorem ensure_username_first_segment:
  "(\<forall>e. urlparse chk url = Inl e \<longrightarrow> ensure_username_from_url chk url = Inl e) \<and>
   (\<forall>parsed. urlparse chk url = Inr parsed \<longrightarrow>
      (\<exists>name. ensure_username_from_url chk url = Inr name \<and> CHR ''/'' \<notin> set name \<and>
         (if set (path parsed) \<subseteq> {CHR ''/''} then name = []
          else name \<noteq> [] \<and>
               (\<exists>k rest. path parsed = replicate k CHR ''/'' @ name @ rest \<and>
                          (rest = [] \<or> hd rest = CHR ''/'')))))"
proof (intro conjI allI impI)
  fix e assume "urlparse chk url = Inl e"
  then show "ensure_username_from_url chk url = Inl e"
    by (simp add: ensure_username_from_url_def)
next
  fix parsed assume p: "urlparse chk url = Inr parsed"
  let ?s = "path parsed"
  let ?name = "takeWhile (\<lambda>x. x \<noteq> CHR ''/'') (dropWhile (\<lambda>x. x = CHR ''/'') ?s)"
  let ?rest = "dropWhile (\<lambda>x. x \<noteq> CHR ''/'') (dropWhile (\<lambda>x. x = CHR ''/'') ?s)"
  have "ensure_username_from_url chk url
          = Inr (case filter (\<lambda>p. p \<noteq> []) (split CHR ''/'' ?s) of [] \<Rightarrow> [] | p # _ \<Rightarrow> p)"
    using p by (simp add: ensure_username_from_url_def split: list.splits)
  then have r: "ensure_username_from_url chk url = Inr ?name"
    by (simp only: first_part_split)
  have n: "CHR ''/'' \<notin> set ?name"
    by (auto dest: set_takeWhileD)
  have c: "if set ?s \<subseteq> {CHR ''/''} then ?name = []
          else ?name \<noteq> [] \<and>
               (\<exists>k rest. ?s = replicate k CHR ''/'' @ ?name @ rest \<and>
                          (rest = [] \<or> hd rest = CHR ''/''))"
  proof (cases "set ?s \<subseteq> {CHR ''/''}")
    case True
    then have "dropWhile (\<lambda>x. x = CHR ''/'') ?s = []" by auto
    with True show ?thesis by (simp only: if_True takeWhile.simps)
  next
    case False
    then have d: "dropWhile (\<lambda>x. x = CHR ''/'') ?s \<noteq> []" by auto
    then have "hd (dropWhile (\<lambda>x. x = CHR ''/'') ?s) \<noteq> CHR ''/''"
      using hd_dropWhile [of "\<lambda>x. x = CHR ''/''" ?s] by simp
    with d have ne: "?name \<noteq> []"
      by (simp add: takeWhile_eq_Nil_iff)
    have "?s = takeWhile (\<lambda>x. x = CHR ''/'') ?s @ ?name @ ?rest"
      by simp
    then have "?s = replicate (length (takeWhile (\<lambda>x. x = CHR ''/'') ?s)) CHR ''/'' @ ?name @ ?rest"
      using dropWhile_eq_replicate [of "CHR ''/''" ?s] by simp
    moreover have "?rest = [] \<or> hd ?rest = CHR ''/''"
      using hd_dropWhile [of "\<lambda>x. x \<noteq> CHR ''/''" "dropWhile (\<lambda>x. x = CHR ''/'') ?s"] by auto
    ultimately show ?thesis using False ne by metis
  qed
  from r n c show "\<exists>name. ensure_username_from_url chk url = Inr name \<and> CHR ''/'' \<notin> set name \<and>
         (if set (path parsed) \<subseteq> {CHR ''/''} then name = []
          else name \<noteq> [] \<and>
               (\<exists>k rest. path parsed = replicate k CHR ''/'' @ name @ rest \<and>
                          (rest = [] \<or> hd rest = CHR ''/'')))"
    by blast
qed

theorem ensure_username_counterexample:
  "ensure_username_from_url any_host ''http://['' = Inl ValueError"
  by code_simp

theorem ensure_username_first_segment_witness:
  "ensure_username_from_url any_host ''https://www.instagram.com//joe/reels/?hl=en'' = Inr ''joe'' \<and>
   ensure_username_from_url any_host ''http://instagram.com['' = Inl ValueError"
proof -
  have a: "urlparse any_host ''https://www.instagram.com//joe/reels/?hl=en''
      = Inr \<lparr>scheme = ''https'', netloc = ''www.instagram.com'', path = ''//joe/reels/'', params = [],
             query = ''hl=en'', fragment = []\<rparr>"
    by code_simp
  have b: "urlparse any_host ''http://instagram.com['' = Inl ValueError"
    by code_simp
  have c: "ensure_username_from_url any_host ''https://www.instagram.com//joe/reels/?hl=en'' = Inr ''joe''"
    by code_simp
  from ensure_username_first_segment [of any_host "''http://instagram.com[''"] b
  have "ensure_username_from_url any_host ''http://instagram.com['' = Inl ValueError" by blast
  moreover
  from ensure_username_first_segment [of any_host "''https://www.instagram.com//joe/reels/?hl=en''"] a
  have "\<exists>name. ensure_username_from_url any_host ''https://www.instagram.com//joe/reels/?hl=en'' = Inr name"
    by blast
  ultimately show ?thesis using c by simp
qed

subsection \<open>Stripping trailing characters\<close>


lemma rstrip_decomp: "\<exists>k. s = rstrip c s @ replicate k c"
proof -
  have "rev s = takeWhile (\<lambda>x. x = c) (rev s) @ dropWhile (\<lambda>x. x = c) (rev s)"
    by simp
  then have "rev s = replicate (length (takeWhile (\<lambda>x. x = c) (rev s))) c @ dropWhile (\<lambda>x. x = c) (rev s)"
    using dropWhile_eq_replicate [of c "rev s"] by simp
  then have "s = rev (dropWhile (\<lambda>x. x = c) (rev s))
                   @ rev (replicate (length (takeWhile (\<lambda>x. x = c) (rev s))) c)"
    by (metis rev_append rev_rev_ident)
  then show ?thesis by (auto simp: rstrip_def)
qed

lemma rstrip_last: "rstrip c s \<noteq> [] \<Longrightarrow> last (rstrip c s) \<noteq> c"
  using hd_dropWhile [of "\<lambda>x. x = c" "rev s"]
  by (simp add: rstrip_def last_rev)

lemma set_rstrip: "set (rstrip c s) \<subseteq> set s"
  by (auto simp: rstrip_def dest: set_dropWhileD)

lemma rstrip_nonempty: "x \<in> set s \<Longrightarrow> x \<noteq> c \<Longrightarrow> rstrip c s \<noteq> []"
  by (auto simp: rstrip_def)

lemma rstrip_snoc [simp]: "rstrip c (s @ [c]) = rstrip c s"
  by (simp add: rstrip_def)

subsection \<open>The parts of a parsed URL\<close>

lemma set_split_once_fst: "set (fst (split_once c s)) \<subseteq> set s - {c}"
  by (auto simp: split_once_def dest: set_takeWhileD)

lemma set_splitparams_fst: "set (fst (splitparams s)) \<subseteq> set s"
proof -
  have "set (last_segment s) \<subseteq> set s"
    by (auto simp: last_segment_def dest: set_takeWhileD)
  then show ?thesis
    by (auto simp: splitparams_def dest: set_takeWhileD in_set_takeD)
qed

lemma lower_scheme_chars:
  "list_all (\<lambda>c. lower_char c \<in> set scheme_chars) scheme_chars"
  by code_simp

lemma scheme_chars_safe:
  "list_all (\<lambda>c. c \<noteq> CHR ''?'' \<and> c \<noteq> CHR ''#'' \<and> c \<noteq> CHR ''/'' \<and> c \<noteq> CHR '':'') scheme_chars"
  by code_simp

lemma set_split_rest:
  assumes "split_rest sch0 nl0 u = (sch, nl, p, q, f)"
  shows "sch = sch0" and "nl = nl0" and "set p \<subseteq> set u - {CHR ''?'', CHR ''#''}"
  using assms set_split_once_fst [of "CHR ''?''" "fst (split_once CHR ''#'' u)"]
    set_split_once_fst [of "CHR ''#''" u]
  by (auto simp: split_rest_def)

lemma set_scheme_of: "set (scheme_of u) \<subseteq> set scheme_chars"
proof (cases "has_scheme u")
  case True
  then have "\<forall>c\<in>set (takeWhile (\<lambda>c. c \<noteq> CHR '':'') u). c \<in> set scheme_chars"
    by (simp add: has_scheme_def list_all_iff)
  moreover have "\<forall>c\<in>set scheme_chars. lower_char c \<in> set scheme_chars"
    using lower_scheme_chars by (simp only: list_all_iff)
  ultimately show ?thesis using True by (auto simp: scheme_of_def lower_def)
next
  case False
  then show ?thesis by (simp add: scheme_of_def)
qed

lemma netloc_no_delim: "\<forall>c\<in>set (fst (splitnetloc u)). \<not> netloc_delim c"
  by (auto simp: splitnetloc_def dest: set_takeWhileD)

lemma urlsplit_parts:
  assumes "urlsplit chk url = Inr (sch, nl, p, q, f)"
  shows "set sch \<subseteq> set scheme_chars" and "\<forall>c\<in>set nl. \<not> netloc_delim c"
    and "CHR ''?'' \<notin> set p" and "CHR ''#'' \<notin> set p"
proof -
  let ?u2 = "after_scheme (strip_url url)"
  from assms obtain nl0 u where r: "split_rest (scheme_of (strip_url url)) nl0 u = (sch, nl, p, q, f)"
    and nl0: "nl0 = [] \<or> nl0 = fst (splitnetloc ?u2)"
    by (auto simp: urlsplit_def split: if_splits option.splits)
  from set_split_rest [OF r] have s: "sch = scheme_of (strip_url url)" and n: "nl = nl0"
    and p: "set p \<subseteq> set u - {CHR ''?'', CHR ''#''}" by auto
  show "set sch \<subseteq> set scheme_chars" using s set_scheme_of by simp
  show "\<forall>c\<in>set nl. \<not> netloc_delim c" using n nl0 netloc_no_delim [of ?u2] by auto
  show "CHR ''?'' \<notin> set p" "CHR ''#'' \<notin> set p" using p by auto
qed

lemma urlparse_parts:
  assumes "urlparse chk url = Inr parsed"
  shows "set (scheme parsed) \<subseteq> set scheme_chars" and "\<forall>c\<in>set (netloc parsed). \<not> netloc_delim c"
    and "CHR ''?'' \<notin> set (path parsed)" and "CHR ''#'' \<notin> set (path parsed)"
proof -
  from assms obtain sch nl p q f where s: "urlsplit chk url = Inr (sch, nl, p, q, f)"
    and sc: "scheme parsed = sch" and n: "netloc parsed = nl"
    and pp: "path parsed = p \<or> path parsed = fst (splitparams p)"
    by (auto simp: urlparse_def split: sum.splits if_splits)
  from urlsplit_parts [OF s] sc n
  show "set (scheme parsed) \<subseteq> set scheme_chars" "\<forall>c\<in>set (netloc parsed). \<not> netloc_delim c"
    by simp_all
  from pp set_splitparams_fst [of p] have "set (path parsed) \<subseteq> set p" by auto
  with urlsplit_parts(3,4) [OF s]
  show "CHR ''?'' \<notin> set (path parsed)" "CHR ''#'' \<notin> set (path parsed)"
    by auto
qed


lemma cleaned_canonical:
  assumes "cleaned chk url = Inr c"
  shows "c \<noteq> []" and "last c \<noteq> CHR ''/''" and "CHR ''?'' \<notin> set c" and "CHR ''#'' \<notin> set c"
    and "\<exists>parsed k. urlparse chk url = Inr parsed \<and>
           scheme parsed @ ''://'' @ netloc parsed @ path parsed = c @ replicate k CHR ''/''"
proof -
  from assms obtain parsed where p: "urlparse chk url = Inr parsed"
    and c: "c = rstrip CHR ''/'' (scheme parsed @ ''://'' @ netloc parsed @ path parsed)"
    by (auto simp: cleaned_def split: sum.splits)
  let ?s = "scheme parsed @ ''://'' @ netloc parsed @ path parsed"
  have "CHR '':'' \<in> set ?s" by simp
  then show ne: "c \<noteq> []" unfolding c by (rule rstrip_nonempty) simp
  then show "last c \<noteq> CHR ''/''" unfolding c by (rule rstrip_last)
  have safe: "\<forall>c\<in>set scheme_chars. c \<noteq> CHR ''?'' \<and> c \<noteq> CHR ''#''"
    using scheme_chars_safe by (simp only: list_all_iff) blast
  from urlparse_parts(1) [OF p] safe
  have s: "CHR ''?'' \<notin> set (scheme parsed)" "CHR ''#'' \<notin> set (scheme parsed)"
    by blast+
  from urlparse_parts(2) [OF p]
  have n: "CHR ''?'' \<notin> set (netloc parsed)" "CHR ''#'' \<notin> set (netloc parsed)"
    unfolding netloc_delim_def by blast+
  from s n urlparse_parts(3,4) [OF p]
  have "CHR ''?'' \<notin> set ?s \<and> CHR ''#'' \<notin> set ?s"
    by simp
  then show "CHR ''?'' \<notin> set c" "CHR ''#'' \<notin> set c"
    using set_rstrip [of "CHR ''/''" ?s] unfolding c by blast+
  from rstrip_decomp [of ?s "CHR ''/''"] p c
  show "\<exists>parsed k. urlparse chk url = Inr parsed \<and>
           scheme parsed @ ''://'' @ netloc parsed @ path parsed = c @ replicate k CHR ''/''"
    by blast
qed

subsection \<open>Appending a query, a fragment or a slash\<close>

lemma cleaned_unfold:
  "cleaned chk url =
     (if take 2 (after_scheme (strip_url url)) = ''//''
      then (case check_netloc chk (fst (splitnetloc (after_scheme (strip_url url)))) of
              Some e \<Rightarrow> Inl e
            | None \<Rightarrow>
                Inr (rstrip CHR ''/''
                       (scheme_of (strip_url url) @ ''://'' @
                        fst (splitnetloc (after_scheme (strip_url url))) @
                        path_of (scheme_of (strip_url url))
                          (snd (splitnetloc (after_scheme (strip_url url)))))))
      else Inr (rstrip CHR ''/''
                  (scheme_of (strip_url url) @ ''://'' @
                   path_of (scheme_of (strip_url url)) (after_scheme (strip_url url)))))"
  by (simp add: cleaned_def urlparse_def urlsplit_def split_rest_def path_of_def
        split: option.splits)

lemma delim_chars:
  "\<not> c0_control_or_space CHR ''?''" "\<not> c0_control_or_space CHR ''#''" "\<not> c0_control_or_space CHR ''/''"
  "\<not> unsafe_url_byte CHR ''?''" "\<not> unsafe_url_byte CHR ''#''" "\<not> unsafe_url_byte CHR ''/''"
  "CHR ''?'' \<notin> set scheme_chars" "CHR ''#'' \<notin> set scheme_chars" "CHR ''/'' \<notin> set scheme_chars"
  by code_simp+

lemma strip_url_append:
  assumes "\<not> c0_control_or_space d" and "\<not> unsafe_url_byte d"
  shows "strip_url (url @ d # t) = strip_url url @ d # filter (\<lambda>c. \<not> unsafe_url_byte c) t"
  using assms by (simp add: strip_url_def dropWhile_append3)

lemma set_strip_url: "set (strip_url url) \<subseteq> set url"
  by (auto simp: strip_url_def dest: set_dropWhileD)

lemma has_scheme_append:
  assumes "d \<notin> set scheme_chars" and "d \<noteq> CHR '':''"
  shows "has_scheme (u @ d # t) = has_scheme u"
proof (cases "CHR '':'' \<in> set u")
  case True
  then have "takeWhile (\<lambda>c. c \<noteq> CHR '':'') (u @ d # t) = takeWhile (\<lambda>c. c \<noteq> CHR '':'') u"
    by simp
  moreover from True have "u \<noteq> []" by auto
  then obtain a u' where "u = a # u'" by (cases u) auto
  ultimately show ?thesis using True by (auto simp add: has_scheme_def)
next
  case False
  then have "takeWhile (\<lambda>c. c \<noteq> CHR '':'') (u @ d # t) = u @ d # takeWhile (\<lambda>c. c \<noteq> CHR '':'') t"
    using assms(2) by (subst takeWhile_append2) auto
  then have "\<not> has_scheme (u @ d # t)"
    using assms(1) by (simp add: has_scheme_def)
  moreover have "\<not> has_scheme u" using False by (simp add: has_scheme_def)
  ultimately show ?thesis by simp
qed

lemma has_scheme_colon: "has_scheme u \<Longrightarrow> CHR '':'' \<in> set u"
  by (simp add: has_scheme_def)

lemma scheme_of_append:
  assumes "d \<notin> set scheme_chars" and "d \<noteq> CHR '':''"
  shows "scheme_of (u @ d # t) = scheme_of u"
  using has_scheme_append [OF assms, of u t] has_scheme_colon [of u]
  by (auto simp: scheme_of_def)

lemma after_scheme_append:
  assumes "d \<notin> set scheme_chars" and "d \<noteq> CHR '':''"
  shows "after_scheme (u @ d # t) = after_scheme u @ d # t"
proof (cases "has_scheme u")
  case True
  then have c: "CHR '':'' \<in> set u" by (rule has_scheme_colon)
  then have "dropWhile (\<lambda>c. c \<noteq> CHR '':'') u \<noteq> []" by auto
  then obtain a r where "dropWhile (\<lambda>c. c \<noteq> CHR '':'') u = a # r"
    by (cases "dropWhile (\<lambda>c. c \<noteq> CHR '':'') u") auto
  moreover have "dropWhile (\<lambda>c. c \<noteq> CHR '':'') (u @ d # t) = dropWhile (\<lambda>c. c \<noteq> CHR '':'') u @ d # t"
    using c by simp
  ultimately show ?thesis
    using True has_scheme_append [OF assms, of u t] by (simp add: after_scheme_def)
next
  case False
  then show ?thesis
    using has_scheme_append [OF assms, of u t] by (simp add: after_scheme_def)
qed

lemma set_after_scheme: "set (after_scheme u) \<subseteq> set u"
  by (auto simp: after_scheme_def dest: set_dropWhileD in_set_dropD)

lemma set_splitnetloc_snd: "set (snd (splitnetloc u)) \<subseteq> set u"
  by (auto simp: splitnetloc_def dest: set_dropWhileD in_set_dropD)

lemma take2_append:
  assumes "d \<noteq> CHR ''/''"
  shows "(take 2 (v @ d # t) = ''//'') = (take 2 v = ''//'')"
proof (cases v)
  case Nil
  with assms show ?thesis by simp
next
  case (Cons a v')
  with assms show ?thesis by (cases v') auto
qed

lemma splitnetloc_append:
  assumes "take 2 v = ''//''" and "netloc_delim d"
  shows "fst (splitnetloc (v @ d # t)) = fst (splitnetloc v)"
    and "snd (splitnetloc (v @ d # t)) = snd (splitnetloc v) @ d # t"
proof -
  from assms(1) have "2 \<le> length v" by (cases v; cases "tl v") auto
  then have "drop 2 (v @ d # t) = drop 2 v @ d # t" by simp
  then show "fst (splitnetloc (v @ d # t)) = fst (splitnetloc v)"
    and "snd (splitnetloc (v @ d # t)) = snd (splitnetloc v) @ d # t"
    using assms(2) by (simp_all add: splitnetloc_def takeWhile_tail dropWhile_append3)
qed

lemma split_once_notin: "c \<notin> set w \<Longrightarrow> split_once c w = (w, [])"
  by (simp add: split_once_def)

lemma split_once_append_sep:
  assumes "c \<notin> set w"
  shows "split_once c (w @ c # t) = (w, t)"
proof -
  have "takeWhile (\<lambda>x. x \<noteq> c) (w @ c # t) = takeWhile (\<lambda>x. x \<noteq> c) w"
    by (rule takeWhile_tail) simp
  also have "\<dots> = w" using assms by auto
  finally have t: "takeWhile (\<lambda>x. x \<noteq> c) (w @ c # t) = w" .
  have "dropWhile (\<lambda>x. x \<noteq> c) (w @ c # t) = dropWhile (\<lambda>x. x \<noteq> c) w @ c # t"
    by (rule dropWhile_append3) simp
  also have "dropWhile (\<lambda>x. x \<noteq> c) w = []" using assms by auto
  finally have d: "dropWhile (\<lambda>x. x \<noteq> c) (w @ c # t) = c # t" by simp
  show ?thesis by (simp add: split_once_def t d)
qed

lemma split_once_fst_append_other:
  assumes "c \<notin> set w" and "d \<noteq> c"
  shows "fst (split_once c (w @ d # t)) = w @ d # fst (split_once c t)"
proof -
  have "takeWhile (\<lambda>x. x \<noteq> c) (w @ d # t) = w @ d # takeWhile (\<lambda>x. x \<noteq> c) t"
    using assms by (subst takeWhile_append2) auto
  then show ?thesis using assms by (auto simp: split_once_def)
qed

lemma path_of_fragment:
  assumes "CHR ''#'' \<notin> set w"
  shows "path_of sch (w @ CHR ''#'' # t) = path_of sch w"
  using assms by (simp add: path_of_def split_once_append_sep split_once_notin)

lemma path_of_query:
  assumes "CHR ''?'' \<notin> set w" and "CHR ''#'' \<notin> set w"
  shows "path_of sch (w @ CHR ''?'' # t) = path_of sch w"
proof -
  have "fst (split_once CHR ''#'' (w @ CHR ''?'' # t)) = w @ CHR ''?'' # fst (split_once CHR ''#'' t)"
    using assms(2) by (rule split_once_fst_append_other) simp
  then have "fst (split_once CHR ''?'' (fst (split_once CHR ''#'' (w @ CHR ''?'' # t)))) = w"
    using assms(1) by (simp add: split_once_append_sep)
  moreover have "fst (split_once CHR ''?'' (fst (split_once CHR ''#'' w))) = w"
    using assms by (simp add: split_once_notin)
  ultimately show ?thesis by (simp add: path_of_def)
qed

lemma path_of_plain:
  assumes "CHR ''?'' \<notin> set w" and "CHR ''#'' \<notin> set w" and "CHR '';'' \<notin> set w"
  shows "path_of sch w = w"
  using assms by (simp add: path_of_def split_once_notin)

lemma in_set_strip_after:
  "x \<in> set (after_scheme (strip_url url)) \<Longrightarrow> x \<in> set url"
  "x \<in> set (snd (splitnetloc (after_scheme (strip_url url)))) \<Longrightarrow> x \<in> set url"
  using set_strip_url [of url] set_after_scheme [of "strip_url url"]
    set_splitnetloc_snd [of "after_scheme (strip_url url)"]
  by blast+

lemma cleaned_append_fragment:
  assumes "CHR ''#'' \<notin> set url"
  shows "cleaned chk (url @ CHR ''#'' # f) = cleaned chk url"
proof -
  let ?f = "filter (\<lambda>c. \<not> unsafe_url_byte c) f"
  let ?u2 = "after_scheme (strip_url url)"
  have s: "strip_url (url @ CHR ''#'' # f) = strip_url url @ CHR ''#'' # ?f"
    by (rule strip_url_append) (rule delim_chars)+
  have sch: "scheme_of (strip_url url @ CHR ''#'' # ?f) = scheme_of (strip_url url)"
    by (rule scheme_of_append) (simp_all add: delim_chars)
  have a: "after_scheme (strip_url url @ CHR ''#'' # ?f) = ?u2 @ CHR ''#'' # ?f"
    by (rule after_scheme_append) (simp_all add: delim_chars)
  have t: "(take 2 (?u2 @ CHR ''#'' # ?f) = ''//'') = (take 2 ?u2 = ''//'')"
    by (rule take2_append) simp
  have n1: "CHR ''#'' \<notin> set ?u2" and n2: "CHR ''#'' \<notin> set (snd (splitnetloc ?u2))"
    using assms in_set_strip_after by blast+
  show ?thesis
  proof (cases "take 2 ?u2 = ''//''")
    case True
    have d: "netloc_delim CHR ''#''" by (simp add: netloc_delim_def)
    show ?thesis
      unfolding cleaned_unfold s sch a t
      by (simp only: True simp_thms if_True splitnetloc_append [OF True d] path_of_fragment [OF n2])
  next
    case False
    show ?thesis
      unfolding cleaned_unfold s sch a t
      by (simp only: False if_False path_of_fragment [OF n1])
  qed
qed

lemma cleaned_append_query:
  assumes "CHR ''?'' \<notin> set url" and "CHR ''#'' \<notin> set url"
  shows "cleaned chk (url @ CHR ''?'' # q) = cleaned chk url"
proof -
  let ?q = "filter (\<lambda>c. \<not> unsafe_url_byte c) q"
  let ?u2 = "after_scheme (strip_url url)"
  have s: "strip_url (url @ CHR ''?'' # q) = strip_url url @ CHR ''?'' # ?q"
    by (rule strip_url_append) (rule delim_chars)+
  have sch: "scheme_of (strip_url url @ CHR ''?'' # ?q) = scheme_of (strip_url url)"
    by (rule scheme_of_append) (simp_all add: delim_chars)
  have a: "after_scheme (strip_url url @ CHR ''?'' # ?q) = ?u2 @ CHR ''?'' # ?q"
    by (rule after_scheme_append) (simp_all add: delim_chars)
  have t: "(take 2 (?u2 @ CHR ''?'' # ?q) = ''//'') = (take 2 ?u2 = ''//'')"
    by (rule take2_append) simp
  have n1: "CHR ''?'' \<notin> set ?u2" "CHR ''#'' \<notin> set ?u2"
    and n2: "CHR ''?'' \<notin> set (snd (splitnetloc ?u2))" "CHR ''#'' \<notin> set (snd (splitnetloc ?u2))"
    using assms in_set_strip_after by blast+
  show ?thesis
  proof (cases "take 2 ?u2 = ''//''")
    case True
    have d: "netloc_delim CHR ''?''" by (simp add: netloc_delim_def)
    show ?thesis
      unfolding cleaned_unfold s sch a t
      by (simp only: True simp_thms if_True splitnetloc_append [OF True d] path_of_query [OF n2])
  next
    case False
    show ?thesis
      unfolding cleaned_unfold s sch a t
      by (simp only: False if_False path_of_query [OF n1])
  qed
qed

lemma take2_slash:
  assumes "take 2 v \<noteq> ''//''" and "take 2 (v @ ''/'') = ''//''"
  shows "v = ''/''"
proof (cases v)
  case Nil
  with assms show ?thesis by simp
next
  case (Cons a v')
  with assms show ?thesis by (cases v') auto
qed

lemma cleaned_append_slash:
  assumes "CHR ''?'' \<notin> set url" and "CHR ''#'' \<notin> set url" and "CHR '';'' \<notin> set url"
  shows "cleaned chk (url @ ''/'') = cleaned chk url"
proof -
  let ?u2 = "after_scheme (strip_url url)"
  let ?sch = "scheme_of (strip_url url)"
  have s: "strip_url (url @ ''/'') = strip_url url @ ''/''"
    using strip_url_append [of "CHR ''/''" url "[]"] by (simp add: delim_chars)
  have sch: "scheme_of (strip_url url @ ''/'') = ?sch"
    by (rule scheme_of_append) (simp_all add: delim_chars)
  have a: "after_scheme (strip_url url @ ''/'') = ?u2 @ ''/''"
    by (rule after_scheme_append) (simp_all add: delim_chars)
  have n1: "CHR ''?'' \<notin> set ?u2" "CHR ''#'' \<notin> set ?u2" "CHR '';'' \<notin> set ?u2"
    and n2: "CHR ''?'' \<notin> set (snd (splitnetloc ?u2))" "CHR ''#'' \<notin> set (snd (splitnetloc ?u2))"
      "CHR '';'' \<notin> set (snd (splitnetloc ?u2))"
    using assms in_set_strip_after by blast+
  have p1: "path_of ?sch ?u2 = ?u2" by (rule path_of_plain [OF n1])
  have p1': "path_of ?sch (?u2 @ ''/'') = ?u2 @ ''/''"
    by (rule path_of_plain) (simp_all add: n1)
  have p2: "path_of ?sch (snd (splitnetloc ?u2)) = snd (splitnetloc ?u2)"
    by (rule path_of_plain [OF n2])
  have p2': "path_of ?sch (snd (splitnetloc ?u2) @ ''/'') = snd (splitnetloc ?u2) @ ''/''"
    by (rule path_of_plain) (simp_all add: n2)
  have r: "rstrip CHR ''/'' (x @ y @ ''/'') = rstrip CHR ''/'' (x @ y)" for x y
    using rstrip_snoc [of "CHR ''/''" "x @ y"] by simp
  have r3: "rstrip CHR ''/'' (x @ y @ z @ ''/'') = rstrip CHR ''/'' (x @ y @ z)" for x y z
    using rstrip_snoc [of "CHR ''/''" "x @ y @ z"] by simp
  have r4: "rstrip CHR ''/'' (x @ y @ z @ v @ ''/'') = rstrip CHR ''/'' (x @ y @ z @ v)" for x y z v
    using rstrip_snoc [of "CHR ''/''" "x @ y @ z @ v"] by simp
  show ?thesis
  proof (cases "take 2 ?u2 = ''//''")
    case True
    have d: "netloc_delim CHR ''/''" by (simp add: netloc_delim_def)
    from True have "2 \<le> length ?u2" by (cases ?u2; cases "tl ?u2") auto
    then have t: "take 2 (?u2 @ ''/'') = ''//''" using True by simp
    show ?thesis
      unfolding cleaned_unfold s sch a
      by (simp only: True t simp_thms if_True splitnetloc_append [OF True d] p2 p2' r4)
  next
    case False
    show ?thesis
    proof (cases "take 2 (?u2 @ ''/'') = ''//''")
      case True
      with False have u2: "?u2 = ''/''" by (rule take2_slash)
      have e: "cleaned chk url = Inr (rstrip CHR ''/'' (?sch @ ''://'' @ ''/''))"
        unfolding cleaned_unfold by (simp only: False if_False p1) (simp only: u2)
      have n: "splitnetloc ''//'' = ([], [])" by (simp add: splitnetloc_def)
      have "cleaned chk (url @ ''/'') = Inr (rstrip CHR ''/'' (?sch @ ''://'' @ path_of ?sch []))"
        unfolding cleaned_unfold s sch a
        by (simp add: u2 n check_netloc_def)
      also have "path_of ?sch [] = []" by (rule path_of_plain) simp_all
      finally show ?thesis using e r [of ?sch "''://''"] by simp
    next
      case f2: False
      show ?thesis
        unfolding cleaned_unfold s sch a
        by (simp only: False f2 if_False p1 p1' r3)
    qed
  qed
qed

subsection \<open>The claims on normalization\<close>

text \<open>
  C10.  Every URL in a list returned by \<open>search_social_links\<close> is non-empty, does not
  end with a slash and contains neither \<open>?\<close> nor \<open>#\<close>, and the list has no
  duplicates.  Cleaning a returned URL again can change it: a path segment with
  parameters that was followed by a slash loses the parameters the second time.
\<close>

theorem search_results_canonical:
  assumes "search_social_links chk ddgs business_name platform max_results = Inr us"
  shows "distinct us \<and>
         (\<forall>u\<in>set us. u \<noteq> [] \<and> last u \<noteq> CHR ''/'' \<and> CHR ''?'' \<notin> set u \<and> CHR ''#'' \<notin> set u)"
proof -
  from assms obtain hits urls where u: "collect_urls chk platform hits [] = Inr urls"
    and us: "us = unique_loop urls {} []"
    by (auto simp: search_social_links_def split: sum.splits)
  have d: "distinct us" unfolding us by (rule distinct_unique_loop) simp_all
  have s: "set us = set urls" unfolding us by (simp add: set_unique_loop)
  from collect_urls_Inr [OF u] have m: "map (\<lambda>r. cleaned chk (hit_url r))
      (filter (\<lambda>r. str_in platform (hit_url r)) hits) = map Inr urls"
    by simp
  have "u \<noteq> [] \<and> last u \<noteq> CHR ''/'' \<and> CHR ''?'' \<notin> set u \<and> CHR ''#'' \<notin> set u" if "u \<in> set us" for u
  proof -
    from that s have "u \<in> set urls" by simp
    then obtain r where "cleaned chk (hit_url r) = Inr u"
      using map_eq_map_Inr_set [OF m, of u] by blast
    then show ?thesis using cleaned_canonical(1-4) by blast
  qed
  with d show ?thesis by blast
qed

theorem search_results_canonical_counterexample:
  "search_social_links any_host params_hit_search ''joe'' ''instagram.com'' 10
     = Inr [''https://www.instagram.com/joe;x''] \<and>
   cleaned any_host ''https://www.instagram.com/joe;x'' = Inr ''https://www.instagram.com/joe''"
  by code_simp

theorem search_results_canonical_witness:
  "search_social_links any_host four_hits_search ''joe'' ''instagram.com'' 10
     = Inr [''https://www.instagram.com/joe'', ''https://example.com/share''] \<and>
   distinct [''https://www.instagram.com/joe'', ''https://example.com/share''] \<and>
   last ''https://www.instagram.com/joe'' \<noteq> CHR ''/'' \<and>
   CHR ''?'' \<notin> set ''https://www.instagram.com/joe'' \<and>
   CHR ''#'' \<notin> set ''https://www.instagram.com/joe'' \<and>
   last ''https://example.com/share'' \<noteq> CHR ''/'' \<and>
   CHR ''?'' \<notin> set ''https://example.com/share'' \<and>
   CHR ''#'' \<notin> set ''https://example.com/share''"
proof -
  have e: "search_social_links any_host four_hits_search ''joe'' ''instagram.com'' 10
     = Inr [''https://www.instagram.com/joe'', ''https://example.com/share'']"
    by code_simp
  from search_results_canonical [OF e] e show ?thesis by simp
qed

text \<open>
  C5.  The cleaned form of a URL raises what \<open>urlparse\<close> raises.  When \<open>urlparse\<close>
  returns, the cleaned form is scheme, \<open>://\<close>, authority and path of the parse with
  every trailing slash removed, not only one: it is what remains of that string after
  some number of slashes is taken from its end, it does not end with a slash, and it
  contains neither \<open>?\<close> nor \<open>#\<close>, so query and fragment are gone.
\<close>

theorem cleaned_strips:
  "(\<forall>e. urlparse chk url = Inl e \<longrightarrow> cleaned chk url = Inl e) \<and>
   (\<forall>parsed. urlparse chk url = Inr parsed \<longrightarrow>
      (\<exists>c k. cleaned chk url = Inr c \<and>
             scheme parsed @ ''://'' @ netloc parsed @ path parsed = c @ replicate k CHR ''/'' \<and>
             c \<noteq> [] \<and> last c \<noteq> CHR ''/'' \<and> CHR ''?'' \<notin> set c \<and> CHR ''#'' \<notin> set c))"
proof (intro conjI allI impI)
  fix e assume "urlparse chk url = Inl e"
  then show "cleaned chk url = Inl e" by (simp add: cleaned_def)
next
  fix parsed assume p: "urlparse chk url = Inr parsed"
  then obtain c where c: "cleaned chk url = Inr c" by (simp add: cleaned_def)
  from cleaned_canonical(5) [OF c] p obtain k where
    "scheme parsed @ ''://'' @ netloc parsed @ path parsed = c @ replicate k CHR ''/''"
    by auto
  with c cleaned_canonical(1-4) [OF c]
  show "\<exists>c k. cleaned chk url = Inr c \<and>
             scheme parsed @ ''://'' @ netloc parsed @ path parsed = c @ replicate k CHR ''/'' \<and>
             c \<noteq> [] \<and> last c \<noteq> CHR ''/'' \<and> CHR ''?'' \<notin> set c \<and> CHR ''#'' \<notin> set c"
    by blast
qed

theorem cleaned_strips_counterexample:
  "cleaned any_host ''https://www.instagram.com/joe//'' = Inr ''https://www.instagram.com/joe''"
  by code_simp

theorem cleaned_strips_witness:
  "urlparse any_host ''HTTPS://www.instagram.com/joe//?hl=en#top''
     = Inr \<lparr>scheme = ''https'', netloc = ''www.instagram.com'', path = ''/joe//'', params = [],
            query = ''hl=en'', fragment = ''top''\<rparr> \<and>
   cleaned any_host ''HTTPS://www.instagram.com/joe//?hl=en#top'' = Inr ''https://www.instagram.com/joe'' \<and>
   urlparse any_host ''http://a]b/'' = Inl ValueError \<and>
   cleaned any_host ''http://a]b/'' = Inl ValueError"
proof -
  have p: "urlparse any_host ''HTTPS://www.instagram.com/joe//?hl=en#top''
     = Inr \<lparr>scheme = ''https'', netloc = ''www.instagram.com'', path = ''/joe//'', params = [],
            query = ''hl=en'', fragment = ''top''\<rparr>"
    by code_simp
  have c: "cleaned any_host ''HTTPS://www.instagram.com/joe//?hl=en#top'' = Inr ''https://www.instagram.com/joe''"
    by code_simp
  have e: "urlparse any_host ''http://a]b/'' = Inl ValueError"
    by code_simp
  from cleaned_strips [of any_host "''http://a]b/''"] e
  have "cleaned any_host ''http://a]b/'' = Inl ValueError" by blast
  with p c e show ?thesis by blast
qed

text \<open>
  C4.  A URL without \<open>?\<close> and \<open>#\<close> has the same cleaned form with any query
  appended; a URL without \<open>#\<close> has the same cleaned form with any fragment appended;
  a URL without \<open>?\<close>, \<open>#\<close> and \<open>;\<close> has the same cleaned form with a slash
  appended.  So two URLs that differ only in the query, only in the fragment or only in
  such a trailing slash are cleaned to the same string (or both raise).  Nothing of the
  kind holds for the scheme, which is kept in the cleaned form.
\<close>

theorem cleaned_collapses:
  "(CHR ''?'' \<notin> set url \<and> CHR ''#'' \<notin> set url \<longrightarrow>
      cleaned chk (url @ CHR ''?'' # q) = cleaned chk url \<and>
      cleaned chk (url @ CHR ''?'' # q) = cleaned chk (url @ CHR ''?'' # q')) \<and>
   (CHR ''#'' \<notin> set url \<longrightarrow>
      cleaned chk (url @ CHR ''#'' # f) = cleaned chk url \<and>
      cleaned chk (url @ CHR ''#'' # f) = cleaned chk (url @ CHR ''#'' # f')) \<and>
   (CHR ''?'' \<notin> set url \<and> CHR ''#'' \<notin> set url \<and> CHR '';'' \<notin> set url \<longrightarrow>
      cleaned chk (url @ ''/'') = cleaned chk url)"
  using cleaned_append_query [of url chk] cleaned_append_fragment [of url chk]
    cleaned_append_slash [of url chk]
  by simp

theorem cleaned_collapses_counterexample:
  "cleaned any_host ''http://www.instagram.com/joe'' \<noteq> cleaned any_host ''https://www.instagram.com/joe''"
  by code_simp

text \<open>With parameters in the last segment the trailing slash does matter.\<close>

lemma trailing_slash_after_parameters:
  "cleaned any_host ''https://www.instagram.com/joe;x/'' = Inr ''https://www.instagram.com/joe;x'' \<and>
   cleaned any_host ''https://www.instagram.com/joe;x'' = Inr ''https://www.instagram.com/joe''"
  by code_simp

theorem cleaned_collapses_witness:
  "cleaned any_host ''https://www.instagram.com/joe?hl=en'' = Inr ''https://www.instagram.com/joe'' \<and>
   cleaned any_host ''https://www.instagram.com/joe?utm=1#top'' = Inr ''https://www.instagram.com/joe'' \<and>
   cleaned any_host ''https://www.instagram.com/joe#top'' = Inr ''https://www.instagram.com/joe'' \<and>
   cleaned any_host ''https://www.instagram.com/joe/'' = Inr ''https://www.instagram.com/joe''"
proof -
  have n: "CHR ''?'' \<notin> set ''https://www.instagram.com/joe''"
          "CHR ''#'' \<notin> set ''https://www.instagram.com/joe''"
          "CHR '';'' \<notin> set ''https://www.instagram.com/joe''"
    by simp_all
  have c: "cleaned any_host ''https://www.instagram.com/joe'' = Inr ''https://www.instagram.com/joe''"
    by code_simp
  from cleaned_collapses [of "''https://www.instagram.com/joe''" any_host "''hl=en''" "''hl=en''" "''top''" "''top''"]
    cleaned_collapses [of "''https://www.instagram.com/joe''" any_host "''utm=1#top''" "''hl=en''" "''top''" "''top''"]
    n c
  show ?thesis by simp
qed

end
